theory Spec2Isabelle
  imports Main "HOL-Library.Word"
begin

section \<open>GoVault: a byte-bounded LRU cache\<close>

text \<open>
  The development embeds \<^verbatim>\<open>govault.go\<close> (package govault). The second copy of the file
  with exported field names (Store, EvictList, MaxSize, CurrentSize) is the same program;
  \<^verbatim>\<open>govault/cache.go\<close> differs only in its size estimator, which is embedded separately
  below. Go's \<^verbatim>\<open>int64\<close> is a 64-bit word: addition, subtraction and multiplication wrap
  around, and comparisons are the signed ones (\<open>\<le>s\<close>, \<open><s\<close>). The mutex is not modelled:
  every public operation holds it from entry to exit, so operations are atomic steps.
\<close>

type_synonym int64 = "64 word"

subsection \<open>Reflected values and the size estimator\<close>

text \<open>
  \<^verbatim>\<open>calculateSize\<close> walks a \<^verbatim>\<open>reflect.Value\<close>. A value is modelled by what the walk can see
  of it: its kind and, per kind, the parts visited. Pointers and interfaces hold their
  target inline (\<open>None\<close> is nil), so the values of this type are finite and acyclic.
  A slice carries its capacity and its \<^verbatim>\<open>Len()\<close> elements, a map its key/value pairs in
  iteration order, a struct its fields. \<open>VOther\<close> is every kind that reaches the
  \<^verbatim>\<open>default\<close> branch (integers, booleans, floats, channels, functions, the invalid Value).
\<close>

datatype rvalue =
    VPtr "rvalue option"
  | VInterface "rvalue option"
  | VString string
  | VSlice nat "rvalue list"
  | VMap "(rvalue \<times> rvalue) list"
  | VStruct "rvalue list"
  | VArray "rvalue list"
  | VOther

text \<open>
  \<^verbatim>\<open>unsafe.Sizeof(x)\<close> is a compile-time constant that depends on the static type of \<open>x\<close>
  only; the operand is not evaluated (so \<^verbatim>\<open>v.Index(0)\<close> inside it reads nothing).
  The operands in \<^verbatim>\<open>calculateSize\<close> have the types \<^verbatim>\<open>uintptr\<close> (\<^verbatim>\<open>v.Pointer()\<close>),
  \<^verbatim>\<open>string\<close> (\<^verbatim>\<open>v.String()\<close>) and \<^verbatim>\<open>interface{}\<close> (\<^verbatim>\<open>v.Interface()\<close>);
  the sizes are those of a 64-bit target.
\<close>

definition sizeof_uintptr :: int64 where
  "sizeof_uintptr = 8"

definition sizeof_string :: int64 where
  "sizeof_string = 16"

definition sizeof_interface :: int64 where
  "sizeof_interface = 16"

fun calculateSize :: "rvalue \<Rightarrow> int64" where
  "calculateSize (VPtr None) = sizeof_uintptr"
| "calculateSize (VPtr (Some e)) = sizeof_uintptr + calculateSize e"
| "calculateSize (VInterface None) = sizeof_uintptr"
| "calculateSize (VInterface (Some e)) = sizeof_uintptr + calculateSize e"
| "calculateSize (VString s) = sizeof_string + of_nat (length s)"
| "calculateSize (VSlice cap xs) =
     foldl (\<lambda>size x. size + calculateSize x)
       (sizeof_uintptr + of_nat cap * sizeof_interface) xs"
| "calculateSize (VMap kvs) =
     foldl (\<lambda>size (k, v). size + (calculateSize k + calculateSize v))
       sizeof_uintptr kvs"
| "calculateSize (VStruct fs) = foldl (\<lambda>size f. size + calculateSize f) 0 fs"
| "calculateSize (VArray xs) = foldl (\<lambda>size x. size + calculateSize x) 0 xs"
| "calculateSize VOther = sizeof_interface"

text \<open>
  \<^verbatim>\<open>calculateEntrySize\<close>: \<open>vk\<close> and \<open>vv\<close> are \<^verbatim>\<open>reflect.ValueOf\<close> at the key type and at
  the value type of the instantiated cache.
\<close>

definition calculateEntrySize ::
  "('k \<Rightarrow> rvalue) \<Rightarrow> ('v \<Rightarrow> rvalue) \<Rightarrow> 'k \<Rightarrow> 'v \<Rightarrow> int64" where
  "calculateEntrySize vk vv key val =
     (let keySize = calculateSize (vk key);
          valueSize = calculateSize (vv val)
      in keySize + valueSize)"

text \<open>
  The estimator of \<^verbatim>\<open>govault/cache.go\<close>: \<^verbatim>\<open>unsafe.Sizeof(key) + unsafe.Sizeof(value)\<close>.
  The operands have the type parameters as types, so each size is that of the
  instantiated type (\<open>sizeofKey\<close>, \<open>sizeofValue\<close>); the key and the value are not read.
\<close>

definition cache_go_calculateEntrySize :: "int64 \<Rightarrow> int64 \<Rightarrow> 'k \<Rightarrow> 'v \<Rightarrow> int64" where
  "cache_go_calculateEntrySize sizeofKey sizeofValue key val =
     (let keySize = sizeofKey;
          valueSize = sizeofValue
      in keySize + valueSize)"

subsection \<open>The cache\<close>

text \<open>
  A \<^verbatim>\<open>*list.Element\<close> is an address. \<open>elems\<close> is the store of the elements allocated so
  far, indexed by address, each with the \<^verbatim>\<open>*entry\<close> in its \<^verbatim>\<open>Value\<close> field;
  \<open>evictList\<close> is the order of the elements linked into the list, front first; \<open>store\<close> is
  the index. An element that was removed from the list stays allocated.
\<close>

record ('k, 'v) entry =
  ekey :: 'k
  evalue :: 'v
  esize :: int64

record ('k, 'v) cache =
  store :: "'k \<rightharpoonup> nat"
  evictList :: "nat list"
  elems :: "('k, 'v) entry list"
  maxSize :: int64
  currSize :: int64

datatype panic = Panic string | InterfaceConversion

text \<open>\<^verbatim>\<open>container/list\<close>: the four operations the cache uses.\<close>

definition PushFront :: "nat \<Rightarrow> nat list \<Rightarrow> nat list" where
  "PushFront e l = e # l"

definition MoveToFront :: "nat \<Rightarrow> nat list \<Rightarrow> nat list" where
  "MoveToFront e l = (if e \<in> set l then e # remove1 e l else l)"

definition Remove :: "nat \<Rightarrow> nat list \<Rightarrow> nat list" where
  "Remove e l = remove1 e l"

definition Back :: "nat list \<Rightarrow> nat option" where
  "Back l = (if l = [] then None else Some (last l))"

text \<open>
  \<^verbatim>\<open>elem.Value.(*entry[Key, Value])\<close>: the type assertion panics when the element holds
  no entry.
\<close>

definition elemValue :: "('k, 'v) cache \<Rightarrow> nat \<Rightarrow> ('k, 'v) entry option" where
  "elemValue c elem = (if elem < length (elems c) then Some (elems c ! elem) else None)"

definition New :: "int64 \<Rightarrow> panic + ('k, 'v) cache" where
  "New maxMB =
     (if maxMB \<le>s 0 then Inl (Panic ''maxMB mutexst be greater than zero'')
      else Inr \<lparr>store = Map.empty, evictList = [], elems = [],
                maxSize = maxMB * 1024 * 1024, currSize = 0\<rparr>)"

definition evict :: "('k, 'v) cache \<Rightarrow> panic + ('k, 'v) cache" where
  "evict c =
     (case Back (evictList c) of
        None \<Rightarrow> Inr c
      | Some elem \<Rightarrow>
          (case elemValue c elem of
             None \<Rightarrow> Inl InterfaceConversion
           | Some ent \<Rightarrow>
               Inr (c\<lparr>evictList := Remove elem (evictList c),
                       store := (store c)(ekey ent := None),
                       currSize := currSize c - esize ent\<rparr>)))"

text \<open>
  The loop \<^verbatim>\<open>for c.currSize > c.maxSize { c.evict() }\<close>. It may run forever: the result
  \<open>None\<close> is the loop that never exits.
\<close>

partial_function (option) evict_loop ::
  "('k, 'v) cache \<Rightarrow> (panic + ('k, 'v) cache) option" where
  "evict_loop c =
     (if maxSize c <s currSize c then
        (case evict c of
           Inl p \<Rightarrow> Some (Inl p)
         | Inr c' \<Rightarrow> evict_loop c')
      else Some (Inr c))"

text \<open>The body of \<^verbatim>\<open>Set\<close> before the loop: update in place, or add a new entry.\<close>

definition Set_store ::
  "('k \<Rightarrow> rvalue) \<Rightarrow> ('v \<Rightarrow> rvalue) \<Rightarrow> ('k, 'v) cache \<Rightarrow> 'k \<Rightarrow> 'v \<Rightarrow> panic + ('k, 'v) cache" where
  "Set_store vk vv c key val =
     (let entrySize = calculateEntrySize vk vv key val in
      case store c key of
        Some elem \<Rightarrow>
          (case elemValue c elem of
             None \<Rightarrow> Inl InterfaceConversion
           | Some ent \<Rightarrow>
               Inr (c\<lparr>currSize := currSize c - esize ent + entrySize,
                       elems := (elems c)[elem := ent\<lparr>evalue := val, esize := entrySize\<rparr>],
                       evictList := MoveToFront elem (evictList c)\<rparr>))
      | None \<Rightarrow>
          (let ent = \<lparr>ekey = key, evalue = val, esize = entrySize\<rparr>;
               elem = length (elems c)
           in Inr (c\<lparr>elems := elems c @ [ent],
                      evictList := PushFront elem (evictList c),
                      store := (store c)(key \<mapsto> elem),
                      currSize := currSize c + entrySize\<rparr>)))"

definition Set ::
  "('k \<Rightarrow> rvalue) \<Rightarrow> ('v \<Rightarrow> rvalue) \<Rightarrow> ('k, 'v) cache \<Rightarrow> 'k \<Rightarrow> 'v
     \<Rightarrow> (panic + ('k, 'v) cache) option" where
  "Set vk vv c key val =
     (case Set_store vk vv c key val of
        Inl p \<Rightarrow> Some (Inl p)
      | Inr c' \<Rightarrow> evict_loop c')"

text \<open>
  \<^verbatim>\<open>Get\<close> returns \<^verbatim>\<open>(value, true)\<close> as \<open>Some value\<close> and \<^verbatim>\<open>(zero, false)\<close> as \<open>None\<close>.
\<close>

definition Get :: "('k, 'v) cache \<Rightarrow> 'k \<Rightarrow> panic + (('k, 'v) cache \<times> 'v option)" where
  "Get c key =
     (case store c key of
        Some elem \<Rightarrow>
          (case elemValue c elem of
             None \<Rightarrow> Inl InterfaceConversion
           | Some ent \<Rightarrow>
               Inr (c\<lparr>evictList := MoveToFront elem (evictList c)\<rparr>, Some (evalue ent)))
      | None \<Rightarrow> Inr (c, None))"

definition Delete :: "('k, 'v) cache \<Rightarrow> 'k \<Rightarrow> panic + ('k, 'v) cache" where
  "Delete c key =
     (case store c key of
        Some elem \<Rightarrow>
          (case elemValue c elem of
             None \<Rightarrow> Inl InterfaceConversion
           | Some ent \<Rightarrow>
               Inr (c\<lparr>evictList := Remove elem (evictList c),
                       store := (store c)(key := None),
                       currSize := currSize c - esize ent\<rparr>))
      | None \<Rightarrow> Inr c)"

subsection \<open>Sequences of public operations\<close>

datatype ('k, 'v) op = OpSet 'k 'v | OpGet 'k | OpDelete 'k

fun apply_op ::
  "('k \<Rightarrow> rvalue) \<Rightarrow> ('v \<Rightarrow> rvalue) \<Rightarrow> ('k, 'v) cache \<Rightarrow> ('k, 'v) op
     \<Rightarrow> (panic + ('k, 'v) cache) option" where
  "apply_op vk vv c (OpSet key val) = Set vk vv c key val"
| "apply_op vk vv c (OpGet key) =
     (case Get c key of Inl p \<Rightarrow> Some (Inl p) | Inr (c', r) \<Rightarrow> Some (Inr c'))"
| "apply_op vk vv c (OpDelete key) = Some (Delete c key)"

fun run ::
  "('k \<Rightarrow> rvalue) \<Rightarrow> ('v \<Rightarrow> rvalue) \<Rightarrow> ('k, 'v) cache \<Rightarrow> ('k, 'v) op list
     \<Rightarrow> (panic + ('k, 'v) cache) option" where
  "run vk vv c [] = Some (Inr c)"
| "run vk vv c (x # xs) =
     (case apply_op vk vv c x of
        None \<Rightarrow> None
      | Some (Inl p) \<Rightarrow> Some (Inl p)
      | Some (Inr c') \<Rightarrow> run vk vv c' xs)"

text \<open>The entries currently in the recency list, front first.\<close>

definition entries :: "('k, 'v) cache \<Rightarrow> ('k, 'v) entry list" where
  "entries c = List.map_filter (elemValue c) (evictList c)"

subsection \<open>The representation invariant\<close>

text \<open>
  The elements of the list are distinct and allocated, the index sends the key of every
  list element to that element, every index entry points into the list at an element
  with that key, and the running total is the sum of the recorded sizes along the list.
\<close>

definition cache_inv :: "('k, 'v) cache \<Rightarrow> bool" where
  "cache_inv c \<longleftrightarrow>
     distinct (evictList c) \<and>
     (\<forall>elem \<in> set (evictList c).
        elem < length (elems c) \<and> store c (ekey (elems c ! elem)) = Some elem) \<and>
     (\<forall>key elem. store c key = Some elem \<longrightarrow>
        elem \<in> set (evictList c) \<and> ekey (elems c ! elem) = key) \<and>
     currSize c = sum_list (map (\<lambda>elem. esize (elems c ! elem)) (evictList c))"

lemma cache_invI:
  assumes "distinct (evictList c)"
    and "\<And>e. e \<in> set (evictList c) \<Longrightarrow>
           e < length (elems c) \<and> store c (ekey (elems c ! e)) = Some e"
    and "\<And>k e. store c k = Some e \<Longrightarrow> e \<in> set (evictList c) \<and> ekey (elems c ! e) = k"
    and "currSize c = sum_list (map (\<lambda>e. esize (elems c ! e)) (evictList c))"
  shows "cache_inv c"
  using assms unfolding cache_inv_def by blast

lemma cache_inv_distinct: "cache_inv c \<Longrightarrow> distinct (evictList c)"
  by (simp add: cache_inv_def)

lemma cache_inv_elem:
  "cache_inv c \<Longrightarrow> e \<in> set (evictList c) \<Longrightarrow>
     e < length (elems c) \<and> store c (ekey (elems c ! e)) = Some e"
  by (simp add: cache_inv_def)

lemma cache_inv_store:
  "cache_inv c \<Longrightarrow> store c k = Some e \<Longrightarrow> e \<in> set (evictList c) \<and> ekey (elems c ! e) = k"
  by (simp add: cache_inv_def)

lemma cache_inv_currSize:
  "cache_inv c \<Longrightarrow> currSize c = sum_list (map (\<lambda>e. esize (elems c ! e)) (evictList c))"
  by (simp add: cache_inv_def)

lemma cache_inv_New: "New maxMB = Inr c \<Longrightarrow> cache_inv c"
  by (auto simp: New_def cache_inv_def split: if_splits)

lemma sum_list_remove1_word:
  fixes f :: "nat \<Rightarrow> int64"
  shows "x \<in> set xs \<Longrightarrow> sum_list (map f (remove1 x xs)) = sum_list (map f xs) - f x"
  by (simp add: sum_list_map_remove1)

lemma remove1_last_butlast: "distinct xs \<Longrightarrow> xs \<noteq> [] \<Longrightarrow> remove1 (last xs) xs = butlast xs"
  by (induction xs) auto

lemma cache_inv_remove:
  assumes inv: "cache_inv c" and el: "elem \<in> set (evictList c)"
  shows "cache_inv (c\<lparr>evictList := remove1 elem (evictList c),
            store := (store c)(ekey (elems c ! elem) := None),
            currSize := currSize c - esize (elems c ! elem)\<rparr>)"
proof -
  note d = cache_inv_distinct [OF inv]
  note fwd = cache_inv_elem [OF inv]
  note bwd = cache_inv_store [OF inv]
  note sz = cache_inv_currSize [OF inv]
  have keys: "\<And>e. e \<in> set (evictList c) \<Longrightarrow> e \<noteq> elem \<Longrightarrow>
      ekey (elems c ! e) \<noteq> ekey (elems c ! elem)"
    using fwd el by (metis option.inject)
  show ?thesis
    apply (rule cache_invI)
    subgoal using d by simp
    subgoal using d fwd keys by auto
    subgoal using d bwd by (auto split: if_splits)
    subgoal using el sz by (simp add: sum_list_remove1_word)
    done
qed

lemma cache_inv_MoveToFront:
  assumes inv: "cache_inv c"
  shows "cache_inv (c\<lparr>evictList := MoveToFront elem (evictList c)\<rparr>)"
proof (cases "elem \<in> set (evictList c)")
  case False
  then show ?thesis using inv by (simp add: MoveToFront_def)
next
  case True
  note d = cache_inv_distinct [OF inv]
  note fwd = cache_inv_elem [OF inv]
  note bwd = cache_inv_store [OF inv]
  note sz = cache_inv_currSize [OF inv]
  show ?thesis
    apply (rule cache_invI)
    subgoal using d True by (simp add: MoveToFront_def)
    subgoal using d True fwd by (auto simp: MoveToFront_def)
    subgoal using d True bwd by (auto simp: MoveToFront_def)
    subgoal using True sz by (simp add: MoveToFront_def sum_list_remove1_word)
    done
qed

lemma evict_empty: "evictList c = [] \<Longrightarrow> evict c = Inr c"
  by (simp add: evict_def Back_def)

lemma evict_nonempty:
  assumes "cache_inv c" "evictList c \<noteq> []"
  shows "evict c = Inr (c\<lparr>evictList := butlast (evictList c),
            store := (store c)(ekey (elems c ! last (evictList c)) := None),
            currSize := currSize c - esize (elems c ! last (evictList c))\<rparr>)"
proof -
  have l: "last (evictList c) \<in> set (evictList c)" using assms(2) by simp
  then have "last (evictList c) < length (elems c)"
    using assms(1) by (simp add: cache_inv_def)
  moreover have "remove1 (last (evictList c)) (evictList c) = butlast (evictList c)"
    using assms by (simp add: cache_inv_def remove1_last_butlast)
  ultimately show ?thesis
    using assms(2) by (simp add: evict_def Back_def elemValue_def Remove_def)
qed

lemma cache_inv_evict:
  assumes inv: "cache_inv c"
  shows "\<exists>c'. evict c = Inr c' \<and> cache_inv c' \<and> maxSize c' = maxSize c"
proof (cases "evictList c = []")
  case True
  then show ?thesis using inv by (simp add: evict_empty)
next
  case False
  have "cache_inv (c\<lparr>evictList := remove1 (last (evictList c)) (evictList c),
            store := (store c)(ekey (elems c ! last (evictList c)) := None),
            currSize := currSize c - esize (elems c ! last (evictList c))\<rparr>)"
    using False by (intro cache_inv_remove [OF inv]) simp
  then show ?thesis
    using False inv
    by (simp add: evict_nonempty remove1_last_butlast cache_inv_distinct)
qed

lemma Delete_present:
  assumes inv: "cache_inv c" and st: "store c key = Some elem"
  shows "Delete c key = Inr (c\<lparr>evictList := remove1 elem (evictList c),
            store := (store c)(key := None),
            currSize := currSize c - esize (elems c ! elem)\<rparr>)"
  using cache_inv_store [OF inv st] cache_inv_elem [OF inv, of elem] st
  by (simp add: Delete_def elemValue_def Remove_def)

lemma Delete_absent: "store c key = None \<Longrightarrow> Delete c key = Inr c"
  by (simp add: Delete_def)

lemma cache_inv_Delete:
  assumes inv: "cache_inv c"
  shows "\<exists>c'. Delete c key = Inr c' \<and> cache_inv c' \<and> maxSize c' = maxSize c"
proof (cases "store c key")
  case None
  then show ?thesis using inv by (simp add: Delete_absent)
next
  case (Some elem)
  have "elem \<in> set (evictList c)" "ekey (elems c ! elem) = key"
    using cache_inv_store [OF inv Some] by simp_all
  then show ?thesis
    using cache_inv_remove [OF inv, of elem] Delete_present [OF inv Some] by simp
qed

lemma Get_present:
  assumes inv: "cache_inv c" and st: "store c key = Some elem"
  shows "Get c key = Inr (c\<lparr>evictList := MoveToFront elem (evictList c)\<rparr>,
                          Some (evalue (elems c ! elem)))"
  using cache_inv_store [OF inv st] cache_inv_elem [OF inv, of elem] st
  by (simp add: Get_def elemValue_def)

lemma Get_absent: "store c key = None \<Longrightarrow> Get c key = Inr (c, None)"
  by (simp add: Get_def)

lemma cache_inv_Get:
  assumes inv: "cache_inv c"
  shows "\<exists>c' r. Get c key = Inr (c', r) \<and> cache_inv c' \<and> maxSize c' = maxSize c"
proof (cases "store c key")
  case None
  then show ?thesis using inv by (simp add: Get_absent)
next
  case (Some elem)
  then show ?thesis
    using cache_inv_MoveToFront [OF inv, of elem] Get_present [OF inv Some] by simp
qed

lemma Set_store_present:
  assumes inv: "cache_inv c" and st: "store c key = Some elem"
  shows "Set_store vk vv c key val =
     Inr (c\<lparr>currSize := currSize c - esize (elems c ! elem) + calculateEntrySize vk vv key val,
            elems := (elems c)[elem := (elems c ! elem)
                        \<lparr>evalue := val, esize := calculateEntrySize vk vv key val\<rparr>],
            evictList := MoveToFront elem (evictList c)\<rparr>)"
  using cache_inv_store [OF inv st] cache_inv_elem [OF inv, of elem] st
  by (simp add: Set_store_def elemValue_def Let_def)

lemma Set_store_absent:
  assumes st: "store c key = None"
  shows "Set_store vk vv c key val =
     Inr (c\<lparr>elems := elems c @ [\<lparr>ekey = key, evalue = val,
                                  esize = calculateEntrySize vk vv key val\<rparr>],
            evictList := PushFront (length (elems c)) (evictList c),
            store := (store c)(key \<mapsto> length (elems c)),
            currSize := currSize c + calculateEntrySize vk vv key val\<rparr>)"
  using st by (simp add: Set_store_def Let_def)

lemma cache_inv_update:
  assumes inv: "cache_inv c" and el: "elem \<in> set (evictList c)"
  shows "cache_inv (c\<lparr>currSize := currSize c - esize (elems c ! elem) + s,
            elems := (elems c)[elem := (elems c ! elem)\<lparr>evalue := v, esize := s\<rparr>],
            evictList := MoveToFront elem (evictList c)\<rparr>)"
proof -
  note d = cache_inv_distinct [OF inv]
  note fwd = cache_inv_elem [OF inv]
  note bwd = cache_inv_store [OF inv]
  note sz = cache_inv_currSize [OF inv]
  have len: "elem < length (elems c)" using fwd el by simp
  have rest: "(\<Sum>e\<leftarrow>remove1 elem (evictList c).
                  esize ((elems c)[elem := (elems c ! elem)\<lparr>evalue := v, esize := s\<rparr>] ! e)) =
              (\<Sum>e\<leftarrow>remove1 elem (evictList c). esize (elems c ! e))"
    using d by (intro arg_cong [where f = sum_list] map_cong) (auto simp: nth_list_update)
  show ?thesis
    apply (rule cache_invI)
    subgoal using d el by (simp add: MoveToFront_def)
    subgoal using d el fwd len by (auto simp: MoveToFront_def nth_list_update)
    subgoal using d el bwd len by (auto simp: MoveToFront_def nth_list_update)
    subgoal using el sz len by (simp add: MoveToFront_def rest sum_list_remove1_word)
    done
qed

lemma cache_inv_insert:
  assumes inv: "cache_inv c" and st: "store c key = None"
  shows "cache_inv (c\<lparr>elems := elems c @ [\<lparr>ekey = key, evalue = v, esize = s\<rparr>],
            evictList := PushFront (length (elems c)) (evictList c),
            store := (store c)(key \<mapsto> length (elems c)),
            currSize := currSize c + s\<rparr>)"
proof -
  note d = cache_inv_distinct [OF inv]
  note fwd = cache_inv_elem [OF inv]
  note bwd = cache_inv_store [OF inv]
  note sz = cache_inv_currSize [OF inv]
  have fresh: "length (elems c) \<notin> set (evictList c)"
    using fwd by auto
  have keys: "\<And>e. e \<in> set (evictList c) \<Longrightarrow> ekey (elems c ! e) \<noteq> key"
    using fwd st by auto
  have rest: "(\<Sum>e\<leftarrow>evictList c. esize ((elems c @ [\<lparr>ekey = key, evalue = v, esize = s\<rparr>]) ! e)) =
              (\<Sum>e\<leftarrow>evictList c. esize (elems c ! e))"
    using fwd by (intro arg_cong [where f = sum_list] map_cong) (auto simp: nth_append)
  show ?thesis
    apply (rule cache_invI)
    subgoal using d fresh by (simp add: PushFront_def)
    subgoal using fwd keys by (auto simp: PushFront_def nth_append)
    subgoal using bwd fwd st by (auto simp: PushFront_def nth_append split: if_splits)
    subgoal using sz by (simp add: PushFront_def rest)
    done
qed

lemma cache_inv_Set_store:
  assumes inv: "cache_inv c"
  shows "\<exists>c'. Set_store vk vv c key val = Inr c' \<and> cache_inv c' \<and> maxSize c' = maxSize c"
proof (cases "store c key")
  case None
  then show ?thesis
    using cache_inv_insert [OF inv None] by (simp add: Set_store_absent)
next
  case (Some elem)
  have "elem \<in> set (evictList c)" using cache_inv_store [OF inv Some] by simp
  then show ?thesis
    using cache_inv_update [OF inv, of elem] Set_store_present [OF inv Some] by simp
qed


subsection \<open>The eviction loop\<close>

lemma evict_loop_exit: "\<not> maxSize c <s currSize c \<Longrightarrow> evict_loop c = Some (Inr c)"
  by (subst evict_loop.simps) simp

lemma evict_loop_step:
  "maxSize c <s currSize c \<Longrightarrow> evict c = Inr c' \<Longrightarrow> evict_loop c = evict_loop c'"
  by (subst evict_loop.simps) simp

lemma evict_loop_inv_aux:
  assumes "evict_loop c = Some r"
  shows "cache_inv c \<longrightarrow> (\<exists>c'. r = Inr c' \<and> cache_inv c' \<and> maxSize c' = maxSize c)"
  using assms
proof (induct rule: evict_loop.raw_induct [rotated 1, consumes 1])
  case (1 f c r)
  show ?case
  proof
    assume inv: "cache_inv c"
    show "\<exists>c'. r = Inr c' \<and> cache_inv c' \<and> maxSize c' = maxSize c"
    proof (cases "maxSize c <s currSize c")
      case False
      then show ?thesis using 1(2) inv by auto
    next
      case True
      obtain c1 where c1: "evict c = Inr c1" "cache_inv c1" "maxSize c1 = maxSize c"
        using cache_inv_evict [OF inv] by blast
      then have "f c1 = Some r" using 1(2) True by simp
      then show ?thesis using 1(1) c1 by fastforce
    qed
  qed
qed

lemma cache_inv_evict_loop:
  "cache_inv c \<Longrightarrow> evict_loop c = Some r \<Longrightarrow>
     \<exists>c'. r = Inr c' \<and> cache_inv c' \<and> maxSize c' = maxSize c"
  using evict_loop_inv_aux by blast

lemma evict_loop_empty_diverges_aux:
  assumes "evict_loop c = Some r"
  shows "\<not> (evictList c = [] \<and> maxSize c <s currSize c)"
  using assms
proof (induct rule: evict_loop.raw_induct [rotated 1, consumes 1])
  case (1 f c r)
  show ?case
  proof
    assume a: "evictList c = [] \<and> maxSize c <s currSize c"
    then have "f c = Some r" using 1(2) by (simp add: evict_empty)
    then show False using 1(1) a by blast
  qed
qed

lemma evict_loop_empty_diverges:
  "evictList c = [] \<Longrightarrow> maxSize c <s currSize c \<Longrightarrow> evict_loop c = None"
  using evict_loop_empty_diverges_aux [of c] by (cases "evict_loop c") auto

lemma cache_inv_empty_currSize: "cache_inv c \<Longrightarrow> evictList c = [] \<Longrightarrow> currSize c = 0"
  by (simp add: cache_inv_def)

lemma evict_loop_terminates:
  "cache_inv c \<Longrightarrow> 0 \<le>s maxSize c \<Longrightarrow> \<exists>c'. evict_loop c = Some (Inr c')"
proof (induction "length (evictList c)" arbitrary: c rule: less_induct)
  case less
  show ?case
  proof (cases "maxSize c <s currSize c")
    case False
    then show ?thesis by (simp add: evict_loop_exit)
  next
    case True
    have ne: "evictList c \<noteq> []"
    proof
      assume "evictList c = []"
      then have "currSize c = 0" using less.prems(1) by (rule cache_inv_empty_currSize [rotated])
      then show False using True less.prems(2) by (simp add: word_sless_alt word_sle_eq)
    qed
    obtain c1 where c1: "evict c = Inr c1" "cache_inv c1" "maxSize c1 = maxSize c"
      using cache_inv_evict [OF less.prems(1)] by blast
    have "length (evictList c1) < length (evictList c)"
      using c1(1) ne evict_nonempty [OF less.prems(1) ne] by auto
    then have "\<exists>c'. evict_loop c1 = Some (Inr c')"
      using less.hyps [of c1] c1 less.prems(2) by simp
    then show ?thesis using evict_loop_step [OF True c1(1)] by simp
  qed
qed

lemma evict_loop_keeps_front:
  "cache_inv c \<Longrightarrow> evictList c = a # rest \<Longrightarrow> esize (elems c ! a) \<le>s maxSize c \<Longrightarrow>
     \<exists>c' rest'. evict_loop c = Some (Inr c') \<and> cache_inv c' \<and> evictList c' = a # rest' \<and>
        elems c' = elems c \<and> maxSize c' = maxSize c"
proof (induction "length rest" arbitrary: c rest rule: less_induct)
  case less
  show ?case
  proof (cases "maxSize c <s currSize c")
    case False
    then show ?thesis using less.prems by (simp add: evict_loop_exit)
  next
    case True
    have ne: "rest \<noteq> []"
    proof
      assume "rest = []"
      then have "currSize c = esize (elems c ! a)"
        using less.prems(1,2) by (simp add: cache_inv_def)
      then show False using True less.prems(3) by (simp add: word_sless_alt word_sle_eq)
    qed
    have ne': "evictList c \<noteq> []" using less.prems(2) by simp
    obtain c1 where c1: "evict c = Inr c1" "cache_inv c1" "maxSize c1 = maxSize c"
      using cache_inv_evict [OF less.prems(1)] by blast
    have l1: "evictList c1 = a # butlast rest" and e1: "elems c1 = elems c"
      using c1(1) ne evict_nonempty [OF less.prems(1) ne'] less.prems(2) by auto
    have "\<exists>c' rest'. evict_loop c1 = Some (Inr c') \<and> cache_inv c' \<and> evictList c' = a # rest' \<and>
        elems c' = elems c1 \<and> maxSize c' = maxSize c1"
      using ne less.prems(3) c1 e1
      by (intro less.hyps [OF _ c1(2) l1]) simp_all
    then show ?thesis using evict_loop_step [OF True c1(1)] e1 c1(3) by simp
  qed
qed

lemma cache_inv_Set:
  assumes inv: "cache_inv c" and r: "Set vk vv c key val = Some r"
  shows "\<exists>c'. r = Inr c' \<and> cache_inv c' \<and> maxSize c' = maxSize c"
proof -
  obtain c1 where c1: "Set_store vk vv c key val = Inr c1" "cache_inv c1" "maxSize c1 = maxSize c"
    using cache_inv_Set_store [OF inv] by blast
  then have "evict_loop c1 = Some r" using r by (simp add: Set_def)
  then show ?thesis using cache_inv_evict_loop [OF c1(2)] c1(3) by fastforce
qed

lemma cache_inv_apply_op:
  assumes inv: "cache_inv c" and r: "apply_op vk vv c x = Some r"
  shows "\<exists>c'. r = Inr c' \<and> cache_inv c' \<and> maxSize c' = maxSize c"
proof (cases x)
  case (OpSet key val)
  then show ?thesis using cache_inv_Set [OF inv] r by simp
next
  case (OpGet key)
  then show ?thesis using cache_inv_Get [OF inv, of key] r by auto
next
  case (OpDelete key)
  then show ?thesis using cache_inv_Delete [OF inv, of key] r by auto
qed

lemma cache_inv_run:
  "cache_inv c \<Longrightarrow> run vk vv c xs = Some r \<Longrightarrow>
     \<exists>c'. r = Inr c' \<and> cache_inv c' \<and> maxSize c' = maxSize c"
proof (induction xs arbitrary: c)
  case Nil
  then show ?case by auto
next
  case (Cons x xs)
  from Cons.prems(2) obtain r1 where r1: "apply_op vk vv c x = Some r1"
    by (cases "apply_op vk vv c x") auto
  then obtain c1 where c1: "r1 = Inr c1" "cache_inv c1" "maxSize c1 = maxSize c"
    using cache_inv_apply_op [OF Cons.prems(1)] by blast
  then have "run vk vv c1 xs = Some r" using Cons.prems(2) r1 by simp
  then show ?case using Cons.IH [OF c1(2)] c1(3) by simp
qed

subsection \<open>Reachable states\<close>

text \<open>The definitions unfolded to run the operations on a concrete cache.\<close>

lemmas eval_defs = New_def Set_def Set_store_def Get_def Delete_def evict_def
  calculateEntrySize_def sizeof_string_def sizeof_uintptr_def sizeof_interface_def
  elemValue_def Back_def Remove_def PushFront_def MoveToFront_def Let_def
  word_sless_alt word_sle_eq


lemma reachable_inv:
  assumes "New maxMB = Inr c0" and "run vk vv c0 ops = Some (Inr c)"
  shows "cache_inv c" and "maxSize c = maxSize c0"
  using cache_inv_run [OF cache_inv_New [OF assms(1)] assms(2)] by simp_all

subsection \<open>Arithmetic of sizes and termination of \<^verbatim>\<open>Set\<close>\<close>

lemma sint_mul_2p20:
  fixes maxMB :: int64
  shows "sint (maxMB * 1024 * 1024) = signed_take_bit 63 (sint maxMB * 1048576)"
proof -
  have "maxMB * 1024 * 1024 = maxMB * 1048576" by simp
  moreover have "sint (1048576 :: int64) = 1048576" by simp
  moreover have "sint (maxMB * 1048576) = signed_take_bit (LENGTH(64) - 1) (sint maxMB * sint (1048576 :: int64))"
    by (rule sint_word_mult)
  ultimately show ?thesis by (simp only: len_bit0 len_num1) simp
qed

lemma sint_mul_MB:
  fixes maxMB :: int64
  assumes "0 <s maxMB" "sint maxMB < 2 ^ 43"
  shows "sint (maxMB * 1024 * 1024) = sint maxMB * 1024 * 1024"
proof -
  have "0 < sint maxMB" using assms(1) by (simp add: word_sless_alt)
  then have "- (2 ^ 63) \<le> sint maxMB * 1048576" "sint maxMB * 1048576 < 2 ^ 63"
    using assms(2) by simp_all
  then have "signed_take_bit 63 (sint maxMB * 1048576) = sint maxMB * 1048576"
    by (rule signed_take_bit_int_eq_self)
  then show ?thesis
    by (simp only: sint_mul_2p20)
qed

lemma sint_mul_MB_neg:
  fixes maxMB :: int64
  assumes "2 ^ 43 \<le> sint maxMB" "sint maxMB < 2 ^ 44"
  shows "maxMB * 1024 * 1024 <s 0"
proof -
  have a: "2 ^ 63 \<le> sint maxMB * 1048576" and b: "sint maxMB * 1048576 < 2 ^ 64"
    using assms by simp_all
  have "signed_take_bit 63 (sint maxMB * 1048576) \<le> sint maxMB * 1048576 - 2 ^ Suc 63"
    using a by (rule signed_take_bit_int_less_eq)
  moreover have "(2::int) ^ Suc 63 = 2 ^ 64" by simp
  ultimately have "signed_take_bit 63 (sint maxMB * 1048576) < 0"
    using b by linarith
  then have "sint (maxMB * 1024 * 1024) < sint (0 :: int64)"
    by (simp only: sint_mul_2p20 sint_0)
  then show ?thesis by (simp only: word_sless_alt)
qed

lemma sint_add_len:
  assumes "n < 2 ^ 63 - 16"
  shows "sint (16 + of_nat n :: int64) = 16 + int n"
proof -
  have "(16 + of_nat n :: int64) = word_of_int (16 + int n)" by simp
  moreover have "signed_take_bit 63 (16 + int n) = 16 + int n"
    using assms by (intro signed_take_bit_int_eq_self) simp_all
  ultimately show ?thesis by (simp only: sint_sbintrunc') simp
qed

lemma Set_fresh:
  assumes "c0 = \<lparr>store = Map.empty, evictList = [], elems = [], maxSize = m, currSize = 0\<rparr>"
  shows "Set vk vv c0 key val =
     (if m <s calculateEntrySize vk vv key val then
        (if m <s 0 then None
         else Some (Inr \<lparr>store = Map.empty, evictList = [],
                 elems = [\<lparr>ekey = key, evalue = val, esize = calculateEntrySize vk vv key val\<rparr>],
                 maxSize = m, currSize = 0\<rparr>))
      else Some (Inr \<lparr>store = [key \<mapsto> 0], evictList = [0],
                 elems = [\<lparr>ekey = key, evalue = val, esize = calculateEntrySize vk vv key val\<rparr>],
                 maxSize = m, currSize = calculateEntrySize vk vv key val\<rparr>))"
proof -
  let ?e = "calculateEntrySize vk vv key val"
  let ?c1 = "\<lparr>store = [key \<mapsto> 0], evictList = [0],
                 elems = [\<lparr>ekey = key, evalue = val, esize = ?e\<rparr>],
                 maxSize = m, currSize = ?e\<rparr>"
  let ?c2 = "\<lparr>store = Map.empty, evictList = [],
                 elems = [\<lparr>ekey = key, evalue = val, esize = ?e\<rparr>],
                 maxSize = m, currSize = 0\<rparr>"
  have s: "Set vk vv c0 key val = evict_loop ?c1"
    using assms by (simp add: Set_def Set_store_def PushFront_def Let_def)
  show ?thesis
  proof (cases "m <s ?e")
    case False
    then show ?thesis using s by (simp add: evict_loop_exit)
  next
    case True
    have e: "evict ?c1 = Inr ?c2"
      by (simp add: evict_def Back_def elemValue_def Remove_def)
    have l: "evict_loop ?c1 = evict_loop ?c2"
      using True by (intro evict_loop_step [OF _ e]) simp
    show ?thesis
    proof (cases "m <s 0")
      case True
      then have "evict_loop ?c2 = None" by (intro evict_loop_empty_diverges) simp_all
      then show ?thesis using s l True \<open>m <s ?e\<close> by simp
    next
      case False
      then have "evict_loop ?c2 = Some (Inr ?c2)" by (intro evict_loop_exit) simp
      then show ?thesis using s l False \<open>m <s ?e\<close> by simp
    qed
  qed
qed

lemma New_positive:
  "0 <s maxMB \<Longrightarrow> New maxMB = Inr \<lparr>store = Map.empty, evictList = [], elems = [],
      maxSize = maxMB * 1024 * 1024, currSize = 0\<rparr>"
  by (simp add: New_def word_sless_alt word_sle_eq)

lemma Set_returns:
  assumes inv: "cache_inv c" and cap: "0 \<le>s maxSize c"
  shows "\<exists>c'. Set vk vv c key val = Some (Inr c')"
proof -
  obtain c1 where c1: "Set_store vk vv c key val = Inr c1" "cache_inv c1" "maxSize c1 = maxSize c"
    using cache_inv_Set_store [OF inv] by blast
  then have "\<exists>c'. evict_loop c1 = Some (Inr c')"
    using cap by (intro evict_loop_terminates) simp_all
  then show ?thesis using c1(1) by (simp add: Set_def)
qed

lemma Set_no_panic:
  assumes inv: "cache_inv c"
  shows "Set vk vv c key val \<noteq> Some (Inl p)"
  using cache_inv_Set [OF inv, of vk vv key val "Inl p"] by auto

lemma Set_store_front:
  assumes inv: "cache_inv c"
  shows "\<exists>c1 a rest. Set_store vk vv c key val = Inr c1 \<and> cache_inv c1 \<and>
           maxSize c1 = maxSize c \<and> evictList c1 = a # rest \<and>
           ekey (elems c1 ! a) = key \<and> evalue (elems c1 ! a) = val \<and>
           esize (elems c1 ! a) = calculateEntrySize vk vv key val"
proof (cases "store c key")
  case None
  show ?thesis
    using cache_inv_insert [OF inv None]
    by (simp add: Set_store_absent [OF None] PushFront_def)
next
  case (Some elem)
  have el: "elem \<in> set (evictList c)" and k: "ekey (elems c ! elem) = key"
    using cache_inv_store [OF inv Some] by simp_all
  have len: "elem < length (elems c)" using cache_inv_elem [OF inv el] by simp
  show ?thesis
    using cache_inv_update [OF inv el] el k len
    by (simp add: Set_store_present [OF inv Some] MoveToFront_def)
qed

subsection \<open>Inserting into an empty cache\<close>

lemma not_sless: "a \<le>s b \<Longrightarrow> \<not> b <s a"
  by (simp add: word_sless_alt word_sle_eq)

lemma Set_absent_fits:
  assumes "store c key = None"
    and "\<not> maxSize c <s currSize c + calculateEntrySize vk vv key val"
  shows "Set vk vv c key val =
     Some (Inr (c\<lparr>elems := elems c @ [\<lparr>ekey = key, evalue = val,
                                        esize = calculateEntrySize vk vv key val\<rparr>],
                  evictList := PushFront (length (elems c)) (evictList c),
                  store := (store c)(key \<mapsto> length (elems c)),
                  currSize := currSize c + calculateEntrySize vk vv key val\<rparr>))"
  using assms(2) by (simp add: Set_def Set_store_absent [OF assms(1)] evict_loop_exit)

lemma Set_absent_evict_one:
  assumes "store c key = None"
    and "maxSize c <s currSize c + calculateEntrySize vk vv key val"
    and "evict (c\<lparr>elems := elems c @ [\<lparr>ekey = key, evalue = val,
                                        esize = calculateEntrySize vk vv key val\<rparr>],
                  evictList := PushFront (length (elems c)) (evictList c),
                  store := (store c)(key \<mapsto> length (elems c)),
                  currSize := currSize c + calculateEntrySize vk vv key val\<rparr>) = Inr c'"
    and "\<not> maxSize c' <s currSize c'"
  shows "Set vk vv c key val = Some (Inr c')"
proof -
  let ?c1 = "c\<lparr>elems := elems c @ [\<lparr>ekey = key, evalue = val,
                                        esize = calculateEntrySize vk vv key val\<rparr>],
                  evictList := PushFront (length (elems c)) (evictList c),
                  store := (store c)(key \<mapsto> length (elems c)),
                  currSize := currSize c + calculateEntrySize vk vv key val\<rparr>"
  have "maxSize ?c1 <s currSize ?c1" using assms(2) by simp
  then have "evict_loop ?c1 = evict_loop c'" using assms(3) by (rule evict_loop_step)
  then show ?thesis
    using assms(4) by (simp add: Set_def Set_store_absent [OF assms(1)] evict_loop_exit)
qed

lemma three_inserts:
  assumes d: "distinct [A, B, C]"
    and fits: "sA \<le>s m" "sA + sB \<le>s m" "sA + sB + sC \<le>s m"
    and s: "sA = calculateEntrySize vk vv A vA" "sB = calculateEntrySize vk vv B vB"
       "sC = calculateEntrySize vk vv C vC"
  shows "run vk vv \<lparr>store = Map.empty, evictList = [], elems = [], maxSize = m, currSize = 0\<rparr>
     [OpSet A vA, OpSet B vB, OpSet C vC] =
     Some (Inr \<lparr>store = [A \<mapsto> 0, B \<mapsto> 1, C \<mapsto> 2], evictList = [2, 1, 0],
       elems = [\<lparr>ekey = A, evalue = vA, esize = sA\<rparr>, \<lparr>ekey = B, evalue = vB, esize = sB\<rparr>,
                \<lparr>ekey = C, evalue = vC, esize = sC\<rparr>],
       maxSize = m, currSize = sA + sB + sC\<rparr>)"
proof -
  note nf = fits [THEN not_sless]
  have 1: "Set vk vv \<lparr>store = Map.empty, evictList = [], elems = [], maxSize = m, currSize = 0\<rparr>
      A vA = Some (Inr \<lparr>store = [A \<mapsto> 0], evictList = [0],
       elems = [\<lparr>ekey = A, evalue = vA, esize = sA\<rparr>], maxSize = m, currSize = sA\<rparr>)"
    using nf(1) by (subst Set_absent_fits) (simp_all add: s PushFront_def)
  have 2: "Set vk vv \<lparr>store = [A \<mapsto> 0], evictList = [0],
       elems = [\<lparr>ekey = A, evalue = vA, esize = sA\<rparr>], maxSize = m, currSize = sA\<rparr>
      B vB = Some (Inr \<lparr>store = [A \<mapsto> 0, B \<mapsto> 1], evictList = [1, 0],
       elems = [\<lparr>ekey = A, evalue = vA, esize = sA\<rparr>, \<lparr>ekey = B, evalue = vB, esize = sB\<rparr>],
       maxSize = m, currSize = sA + sB\<rparr>)"
    using nf(2) d by (subst Set_absent_fits) (auto simp: s PushFront_def)
  have 3: "Set vk vv \<lparr>store = [A \<mapsto> 0, B \<mapsto> 1], evictList = [1, 0],
       elems = [\<lparr>ekey = A, evalue = vA, esize = sA\<rparr>, \<lparr>ekey = B, evalue = vB, esize = sB\<rparr>],
       maxSize = m, currSize = sA + sB\<rparr>
      C vC = Some (Inr \<lparr>store = [A \<mapsto> 0, B \<mapsto> 1, C \<mapsto> 2], evictList = [2, 1, 0],
       elems = [\<lparr>ekey = A, evalue = vA, esize = sA\<rparr>, \<lparr>ekey = B, evalue = vB, esize = sB\<rparr>,
                \<lparr>ekey = C, evalue = vC, esize = sC\<rparr>],
       maxSize = m, currSize = sA + sB + sC\<rparr>)"
    using nf(3) d by (subst Set_absent_fits) (auto simp: s PushFront_def)
  show ?thesis by (simp only: run.simps apply_op.simps 1 2 3 option.case sum.case)
qed

lemma run_append:
  "run vk vv c xs = Some (Inr c') \<Longrightarrow> run vk vv c (xs @ ys) = run vk vv c' ys"
proof (induction xs arbitrary: c)
  case Nil
  then show ?case by simp
next
  case (Cons x xs)
  from Cons.prems obtain c1 where c1: "apply_op vk vv c x = Some (Inr c1)"
    by (auto split: option.splits sum.splits)
  then have "run vk vv c1 xs = Some (Inr c')" using Cons.prems by simp
  then show ?case using Cons.IH c1 by simp
qed

lemma New_Inr:
  "New maxMB = Inr c0 \<Longrightarrow>
     c0 = \<lparr>store = Map.empty, evictList = [], elems = [], maxSize = maxSize c0, currSize = 0\<rparr>"
  by (auto simp: New_def split: if_splits)

lemma entries_simps:
  "entries c = List.map_filter (\<lambda>elem. if elem < length (elems c) then Some (elems c ! elem) else None)
     (evictList c)"
  by (simp add: entries_def elemValue_def [abs_def])

section \<open>The claims\<close>



text \<open>
  C2. After every sequence of public operations, index and recency list are in bijection:
  the list has no element twice, every list element holds an entry whose key the index
  sends to that element, every index entry points at a list element holding that key,
  and no two list elements hold the same key.
\<close>

theorem index_list_bijection:
  assumes "New maxMB = Inr c0" and "run vk vv c0 ops = Some (Inr c)"
  shows "distinct (evictList c) \<and>
    (\<forall>elem \<in> set (evictList c).
       \<exists>ent. elemValue c elem = Some ent \<and> store c (ekey ent) = Some elem) \<and>
    (\<forall>key elem. store c key = Some elem \<longrightarrow>
       elem \<in> set (evictList c) \<and> (\<exists>ent. elemValue c elem = Some ent \<and> ekey ent = key)) \<and>
    (\<forall>elem \<in> set (evictList c). \<forall>elem' \<in> set (evictList c).
       map_option ekey (elemValue c elem) = map_option ekey (elemValue c elem') \<longrightarrow>
       elem = elem')"
proof -
  have inv: "cache_inv c" using assms by (rule reachable_inv)
  note d = cache_inv_distinct [OF inv]
  note fwd = cache_inv_elem [OF inv]
  note bwd = cache_inv_store [OF inv]
  have 2: "\<forall>elem \<in> set (evictList c).
       \<exists>ent. elemValue c elem = Some ent \<and> store c (ekey ent) = Some elem"
  proof
    fix e assume "e \<in> set (evictList c)"
    from fwd [OF this]
    show "\<exists>ent. elemValue c e = Some ent \<and> store c (ekey ent) = Some e"
      by (simp add: elemValue_def)
  qed
  have 3: "\<forall>key elem. store c key = Some elem \<longrightarrow>
       elem \<in> set (evictList c) \<and> (\<exists>ent. elemValue c elem = Some ent \<and> ekey ent = key)"
  proof (intro allI impI)
    fix k e assume "store c k = Some e"
    from bwd [OF this] fwd [of e]
    show "e \<in> set (evictList c) \<and> (\<exists>ent. elemValue c e = Some ent \<and> ekey ent = k)"
      by (simp add: elemValue_def)
  qed
  have 4: "\<forall>elem \<in> set (evictList c). \<forall>elem' \<in> set (evictList c).
       map_option ekey (elemValue c elem) = map_option ekey (elemValue c elem') \<longrightarrow>
       elem = elem'"
  proof (intro ballI impI)
    fix e e' assume e: "e \<in> set (evictList c)" and e': "e' \<in> set (evictList c)"
      and k: "map_option ekey (elemValue c e) = map_option ekey (elemValue c e')"
    have le: "e < length (elems c)" and le': "e' < length (elems c)"
      using fwd [OF e] fwd [OF e'] by blast+
    have "ekey (elems c ! e) = ekey (elems c ! e')"
      using k le le' by (simp add: elemValue_def)
    then have "store c (ekey (elems c ! e)) = store c (ekey (elems c ! e'))"
      by (rule arg_cong)
    then have "Some e = Some e'"
      using fwd [OF e] fwd [OF e'] by (simp only:)
    then show "e = e'" by (rule option.inject [THEN iffD1])
  qed
  show ?thesis using d 2 3 4 by (intro conjI)
qed

theorem index_list_bijection_witness:
  "New 1 = Inr \<lparr>store = Map.empty, evictList = [], elems = [] :: (string, string) entry list,
                 maxSize = 1048576, currSize = 0\<rparr> \<and>
   run VString VString
     \<lparr>store = Map.empty, evictList = [], elems = [], maxSize = 1048576, currSize = 0\<rparr>
     [OpSet ''a'' ''x'', OpSet ''b'' ''y'', OpSet ''a'' ''zz'', OpDelete ''c'', OpGet ''b''] =
   Some (Inr \<lparr>store = [''a'' \<mapsto> 0, ''b'' \<mapsto> Suc 0], evictList = [Suc 0, 0],
               elems = [\<lparr>ekey = ''a'', evalue = ''zz'', esize = 35\<rparr>,
                        \<lparr>ekey = ''b'', evalue = ''y'', esize = 34\<rparr>],
               maxSize = 1048576, currSize = 69\<rparr>) \<and>
   distinct (evictList \<lparr>store = [''a'' \<mapsto> 0, ''b'' \<mapsto> Suc 0], evictList = [Suc 0, 0],
               elems = [\<lparr>ekey = ''a'', evalue = ''zz'', esize = 35\<rparr>,
                        \<lparr>ekey = ''b'', evalue = ''y'', esize = 34\<rparr>],
               maxSize = 1048576, currSize = 69\<rparr>)"
proof -
  have n: "New 1 = Inr \<lparr>store = Map.empty, evictList = [],
                 elems = [] :: (string, string) entry list,
                 maxSize = 1048576, currSize = 0\<rparr>"
    by (simp add: eval_defs)
  have r: "run VString VString
     \<lparr>store = Map.empty, evictList = [], elems = [], maxSize = 1048576, currSize = 0\<rparr>
     [OpSet ''a'' ''x'', OpSet ''b'' ''y'', OpSet ''a'' ''zz'', OpDelete ''c'', OpGet ''b''] =
   Some (Inr \<lparr>store = [''a'' \<mapsto> 0, ''b'' \<mapsto> Suc 0], evictList = [Suc 0, 0],
               elems = [\<lparr>ekey = ''a'', evalue = ''zz'', esize = 35\<rparr>,
                        \<lparr>ekey = ''b'', evalue = ''y'', esize = 34\<rparr>],
               maxSize = 1048576, currSize = 69\<rparr>)"
    by (simp add: eval_defs evict_loop.simps)
  show ?thesis
    using n r index_list_bijection [OF n r] by simp
qed

text \<open>
  C3 (amended). In every state reached by public operations from a cache whose stored
  capacity is not negative (every \<open>0 < maxMB < 2 ^ 43\<close> gives one), the eviction loop of
  \<^verbatim>\<open>Set\<close> exits and \<^verbatim>\<open>Set\<close> returns: an eviction on a non-empty list removes the last
  element and subtracts its recorded size from the running total, and on the empty list
  it changes nothing, the running total being 0 there.
\<close>

theorem Set_terminates:
  assumes "New maxMB = Inr c0" and "run vk vv c0 ops = Some (Inr c)" and "0 \<le>s maxSize c"
  shows "(\<exists>c'. Set vk vv c key val = Some (Inr c')) \<and>
         (evictList c = [] \<longrightarrow> evict c = Inr c \<and> currSize c = 0) \<and>
         (evictList c \<noteq> [] \<longrightarrow>
            (\<exists>c'. evict c = Inr c' \<and> evictList c' = butlast (evictList c) \<and>
                  currSize c' = currSize c - esize (elems c ! last (evictList c))))"
proof -
  have inv: "cache_inv c" using assms(1,2) by (rule reachable_inv)
  have 1: "\<exists>c'. Set vk vv c key val = Some (Inr c')"
    using inv assms(3) by (rule Set_returns)
  have 2: "evictList c = [] \<longrightarrow> evict c = Inr c \<and> currSize c = 0"
    using inv by (simp add: evict_empty cache_inv_empty_currSize)
  have 3: "evictList c \<noteq> [] \<longrightarrow>
            (\<exists>c'. evict c = Inr c' \<and> evictList c' = butlast (evictList c) \<and>
                  currSize c' = currSize c - esize (elems c ! last (evictList c)))"
    using inv by (simp add: evict_nonempty)
  show ?thesis using 1 2 3 by (intro conjI)
qed

theorem Set_terminates_witness:
  "New 1 = Inr \<lparr>store = Map.empty, evictList = [], elems = [] :: (string, string) entry list,
                 maxSize = 1048576, currSize = 0\<rparr> \<and>
   run VString VString
     \<lparr>store = Map.empty, evictList = [], elems = [], maxSize = 1048576, currSize = 0\<rparr>
     [OpSet ''a'' ''x''] =
   Some (Inr \<lparr>store = [''a'' \<mapsto> 0], evictList = [0],
               elems = [\<lparr>ekey = ''a'', evalue = ''x'', esize = 34\<rparr>],
               maxSize = 1048576, currSize = 34\<rparr>) \<and>
   (0 :: int64) \<le>s 1048576 \<and>
   Set VString VString
     \<lparr>store = [''a'' \<mapsto> 0], evictList = [0],
      elems = [\<lparr>ekey = ''a'', evalue = ''x'', esize = 34\<rparr>],
      maxSize = 1048576, currSize = 34\<rparr> ''b'' (replicate 1048576 CHR ''y'') =
   Some (Inr \<lparr>store = Map.empty, evictList = [],
               elems = [\<lparr>ekey = ''a'', evalue = ''x'', esize = 34\<rparr>,
                        \<lparr>ekey = ''b'', evalue = replicate 1048576 CHR ''y'', esize = 1048609\<rparr>],
               maxSize = 1048576, currSize = 0\<rparr>)"
proof -
  have n: "New 1 = Inr \<lparr>store = Map.empty, evictList = [],
                 elems = [] :: (string, string) entry list,
                 maxSize = 1048576, currSize = 0\<rparr>"
    by (simp add: eval_defs)
  have r: "run VString VString
     \<lparr>store = Map.empty, evictList = [], elems = [], maxSize = 1048576, currSize = 0\<rparr>
     [OpSet ''a'' ''x''] =
   Some (Inr \<lparr>store = [''a'' \<mapsto> 0], evictList = [0],
               elems = [\<lparr>ekey = ''a'', evalue = ''x'', esize = 34\<rparr>],
               maxSize = 1048576, currSize = 34\<rparr>)"
    by (simp add: eval_defs evict_loop.simps)
  have m: "0 \<le>s maxSize \<lparr>store = [''a'' \<mapsto> 0], evictList = [0],
               elems = [\<lparr>ekey = ''a'', evalue = ''x'', esize = 34\<rparr>],
               maxSize = 1048576, currSize = 34\<rparr>"
    by (simp add: word_sle_eq)
  show ?thesis
    using n r m Set_terminates [OF n r m, of "''b''" "replicate 1048576 CHR ''y''"]
    by (simp add: eval_defs evict_loop.simps)
qed

theorem Set_terminates_counterexample:
  "(New (2 ^ 43) :: panic + (string, string) cache) =
     Inr \<lparr>store = Map.empty, evictList = [], elems = [],
          maxSize = - 9223372036854775808, currSize = 0\<rparr> \<and>
   run VString VString
     \<lparr>store = Map.empty, evictList = [], elems = [],
      maxSize = - 9223372036854775808, currSize = 0\<rparr> [] =
   Some (Inr \<lparr>store = Map.empty, evictList = [], elems = [],
               maxSize = - 9223372036854775808, currSize = 0\<rparr>) \<and>
   Set VString VString
     \<lparr>store = Map.empty, evictList = [], elems = [],
      maxSize = - 9223372036854775808, currSize = 0\<rparr> ''a'' ''x'' = None \<and>
   (New 1 :: panic + (rvalue, rvalue) cache) =
     Inr \<lparr>store = Map.empty, evictList = [], elems = [], maxSize = 1048576, currSize = 0\<rparr> \<and>
   run id id
     \<lparr>store = Map.empty, evictList = [], elems = [], maxSize = 1048576, currSize = 0\<rparr>
     [OpSet (VStruct []) (VStruct [])] =
   Some (Inr \<lparr>store = [VStruct [] \<mapsto> 0], evictList = [0],
               elems = [\<lparr>ekey = VStruct [], evalue = VStruct [], esize = 0\<rparr>],
               maxSize = 1048576, currSize = 0\<rparr>) \<and>
   evict \<lparr>store = [VStruct [] \<mapsto> 0], evictList = [0],
          elems = [\<lparr>ekey = VStruct [], evalue = VStruct [], esize = 0\<rparr>],
          maxSize = 1048576, currSize = 0\<rparr> =
   Inr \<lparr>store = Map.empty, evictList = [],
        elems = [\<lparr>ekey = VStruct [], evalue = VStruct [], esize = 0\<rparr>],
        maxSize = 1048576, currSize = 0\<rparr>"
proof -
  have "Set VString VString
     \<lparr>store = Map.empty, evictList = [], elems = [],
      maxSize = - 9223372036854775808, currSize = 0\<rparr> ''a'' ''x'' = None"
    by (simp add: Set_fresh [OF refl] calculateEntrySize_def sizeof_string_def word_sless_alt)
  moreover have "run id id
     \<lparr>store = Map.empty, evictList = [], elems = [], maxSize = 1048576, currSize = 0\<rparr>
     [OpSet (VStruct []) (VStruct [])] =
   Some (Inr \<lparr>store = [VStruct [] \<mapsto> 0], evictList = [0],
               elems = [\<lparr>ekey = VStruct [], evalue = VStruct [], esize = 0\<rparr>],
               maxSize = 1048576, currSize = 0\<rparr>)"
    by (simp add: eval_defs evict_loop.simps)
  ultimately show ?thesis
    by (simp add: New_def evict_def Back_def elemValue_def Remove_def word_sle_eq)
qed

text \<open>
  C4 (amended). In every state reached by public operations, \<^verbatim>\<open>Get\<close> and \<^verbatim>\<open>Delete\<close>
  return without a panic for every key, and \<^verbatim>\<open>Set\<close> never panics for any key and value
  (the size estimation is a total function on the finite values of \<open>rvalue\<close>, empty
  slices, nil pointers and empty strings among them); \<^verbatim>\<open>Set\<close> returns whenever the stored
  capacity is not negative.
\<close>

theorem operations_complete:
  assumes "New maxMB = Inr c0" and "run vk vv c0 ops = Some (Inr c)"
  shows "(\<exists>c' r. Get c key = Inr (c', r)) \<and>
         (\<exists>c'. Delete c key = Inr c') \<and>
         (\<forall>p. Set vk vv c key val \<noteq> Some (Inl p)) \<and>
         (0 \<le>s maxSize c \<longrightarrow> (\<exists>c'. Set vk vv c key val = Some (Inr c')))"
proof -
  have inv: "cache_inv c" using assms(1,2) by (rule reachable_inv)
  have 1: "\<exists>c' r. Get c key = Inr (c', r)" using cache_inv_Get [OF inv, of key] by blast
  have 2: "\<exists>c'. Delete c key = Inr c'" using cache_inv_Delete [OF inv, of key] by blast
  have 3: "\<forall>p. Set vk vv c key val \<noteq> Some (Inl p)" using Set_no_panic [OF inv] by blast
  have 4: "0 \<le>s maxSize c \<longrightarrow> (\<exists>c'. Set vk vv c key val = Some (Inr c'))"
    using Set_returns [OF inv] by blast
  show ?thesis using 1 2 3 4 by (intro conjI)
qed

theorem operations_complete_witness:
  "New 1 = Inr \<lparr>store = Map.empty, evictList = [], elems = [] :: (string, rvalue) entry list,
                 maxSize = 1048576, currSize = 0\<rparr> \<and>
   run VString id
     \<lparr>store = Map.empty, evictList = [], elems = [], maxSize = 1048576, currSize = 0\<rparr>
     [OpSet ''p'' (VPtr None)] =
   Some (Inr \<lparr>store = [''p'' \<mapsto> 0], evictList = [0],
               elems = [\<lparr>ekey = ''p'', evalue = VPtr None, esize = 25\<rparr>],
               maxSize = 1048576, currSize = 25\<rparr>) \<and>
   (0 :: int64) \<le>s 1048576 \<and>
   Set VString id
     \<lparr>store = [''p'' \<mapsto> 0], evictList = [0],
      elems = [\<lparr>ekey = ''p'', evalue = VPtr None, esize = 25\<rparr>],
      maxSize = 1048576, currSize = 25\<rparr> [] (VSlice 0 []) =
   Some (Inr \<lparr>store = [''p'' \<mapsto> 0, [] \<mapsto> Suc 0], evictList = [Suc 0, 0],
               elems = [\<lparr>ekey = ''p'', evalue = VPtr None, esize = 25\<rparr>,
                        \<lparr>ekey = [], evalue = VSlice 0 [], esize = 24\<rparr>],
               maxSize = 1048576, currSize = 49\<rparr>)"
proof -
  have n: "New 1 = Inr \<lparr>store = Map.empty, evictList = [],
                 elems = [] :: (string, rvalue) entry list,
                 maxSize = 1048576, currSize = 0\<rparr>"
    by (simp add: eval_defs)
  have r: "run VString id
     \<lparr>store = Map.empty, evictList = [], elems = [], maxSize = 1048576, currSize = 0\<rparr>
     [OpSet ''p'' (VPtr None)] =
   Some (Inr \<lparr>store = [''p'' \<mapsto> 0], evictList = [0],
               elems = [\<lparr>ekey = ''p'', evalue = VPtr None, esize = 25\<rparr>],
               maxSize = 1048576, currSize = 25\<rparr>)"
    by (simp add: eval_defs evict_loop.simps)
  show ?thesis
    using n r operations_complete [OF n r, of "[]" "VSlice 0 []"]
    by (simp add: eval_defs evict_loop.simps)
qed

theorem operations_complete_counterexample:
  "(New (2 ^ 43) :: panic + (string, rvalue) cache) =
     Inr \<lparr>store = Map.empty, evictList = [], elems = [],
          maxSize = - 9223372036854775808, currSize = 0\<rparr> \<and>
   Set VString id
     \<lparr>store = Map.empty, evictList = [], elems = [],
      maxSize = - 9223372036854775808, currSize = 0\<rparr> ''k'' (VSlice 0 []) = None"
  by (simp add: Set_fresh [OF refl] New_def calculateEntrySize_def sizeof_string_def
      sizeof_uintptr_def sizeof_interface_def word_sless_alt word_sle_eq)

text \<open>
  C5 (amended). For every \<open>maxMB > 0\<close>, \<^verbatim>\<open>New\<close> returns a cache with an empty index, an
  empty recency list and running total 0; its capacity is \<open>maxMB * 1024 * 1024\<close> bytes
  for every \<open>0 < maxMB < 2 ^ 43\<close>, and the 64-bit wrap-around of that product beyond.
  For every \<open>maxMB \<le> 0\<close> it panics and returns no cache.
\<close>

theorem New_capacity:
  "(0 <s maxMB \<longrightarrow>
      (\<exists>c. (New maxMB :: panic + ('k, 'v) cache) = Inr c \<and>
           store c = Map.empty \<and> evictList c = [] \<and> elems c = [] \<and> currSize c = 0 \<and>
           maxSize c = maxMB * 1024 * 1024 \<and>
           (sint maxMB < 2 ^ 43 \<longrightarrow>
              sint (maxSize c) = sint maxMB * 1024 * 1024 \<and> 0 <s maxSize c))) \<and>
   (maxMB \<le>s 0 \<longrightarrow>
      (New maxMB :: panic + ('k, 'v) cache) = Inl (Panic ''maxMB mutexst be greater than zero''))"
proof (intro conjI impI)
  assume pos: "0 <s maxMB"
  let ?c = "\<lparr>store = Map.empty, evictList = [], elems = [] :: ('k, 'v) entry list,
             maxSize = maxMB * 1024 * 1024, currSize = 0\<rparr>"
  have n: "New maxMB = Inr ?c" using pos by (rule New_positive)
  have ex: "sint (maxSize ?c) = sint maxMB * 1024 * 1024 \<and> 0 <s maxSize ?c"
    if b: "sint maxMB < 2 ^ 43"
  proof -
    have e: "sint (maxMB * 1024 * 1024) = sint maxMB * 1024 * 1024"
      using pos b by (rule sint_mul_MB)
    have "0 < sint maxMB" using pos by (simp add: word_sless_alt)
    then have "0 < sint maxMB * 1024 * 1024" by simp
    then have "sint (0 :: int64) < sint (maxMB * 1024 * 1024)" by (simp only: e sint_0)
    then have "0 <s maxMB * 1024 * 1024" by (simp only: word_sless_alt)
    then show ?thesis using e by simp
  qed
  show "\<exists>c. (New maxMB :: panic + ('k, 'v) cache) = Inr c \<and>
           store c = Map.empty \<and> evictList c = [] \<and> elems c = [] \<and> currSize c = 0 \<and>
           maxSize c = maxMB * 1024 * 1024 \<and>
           (sint maxMB < 2 ^ 43 \<longrightarrow>
              sint (maxSize c) = sint maxMB * 1024 * 1024 \<and> 0 <s maxSize c)"
    using n ex by (intro exI [of _ ?c]) simp
next
  assume "maxMB \<le>s 0"
  then show "(New maxMB :: panic + ('k, 'v) cache) =
      Inl (Panic ''maxMB mutexst be greater than zero'')"
    by (simp add: New_def)
qed

theorem New_capacity_witness:
  "0 <s (10 :: int64) \<and> sint (10 :: int64) < 2 ^ 43 \<and>
   (New 10 :: panic + (string, string) cache) =
     Inr \<lparr>store = Map.empty, evictList = [], elems = [], maxSize = 10485760, currSize = 0\<rparr> \<and>
   sint (10485760 :: int64) = 10 * 1024 * 1024 \<and>
   (0 :: int64) \<le>s 0 \<and>
   (New 0 :: panic + (string, string) cache) = Inl (Panic ''maxMB mutexst be greater than zero'') \<and>
   (- 1 :: int64) \<le>s 0 \<and>
   (New (- 1) :: panic + (string, string) cache) = Inl (Panic ''maxMB mutexst be greater than zero'')"
  using New_capacity [of 10, where ?'k = string and ?'v = string]
    New_capacity [of 0, where ?'k = string and ?'v = string]
    New_capacity [of "- 1", where ?'k = string and ?'v = string]
  by (simp add: New_def word_sless_alt word_sle_eq)

theorem New_capacity_counterexample:
  "0 <s (2 ^ 43 :: int64) \<and>
   (New (2 ^ 43) :: panic + (string, string) cache) =
     Inr \<lparr>store = Map.empty, evictList = [], elems = [],
          maxSize = - 9223372036854775808, currSize = 0\<rparr> \<and>
   sint (- 9223372036854775808 :: int64) = - (2 ^ 63) \<and>
   sint (2 ^ 43 :: int64) * 1024 * 1024 = 2 ^ 63 \<and>
   sint (- 9223372036854775808 :: int64) \<noteq> sint (2 ^ 43 :: int64) * 1024 * 1024"
  by (simp add: New_def word_sless_alt word_sle_eq)

text \<open>
  C6 (amended). In every state reached by public operations, for every key and value
  whose estimated entry size does not exceed the capacity, \<^verbatim>\<open>Set(key, value)\<close> returns
  and \<^verbatim>\<open>Get(key)\<close> right after it returns \<^verbatim>\<open>(value, true)\<close>.
\<close>

theorem Set_then_Get:
  assumes "New maxMB = Inr c0" and "run vk vv c0 ops = Some (Inr c)"
    and "calculateEntrySize vk vv key val \<le>s maxSize c"
  shows "\<exists>c1 c2. Set vk vv c key val = Some (Inr c1) \<and> Get c1 key = Inr (c2, Some val)"
proof -
  have inv: "cache_inv c" using assms(1,2) by (rule reachable_inv)
  obtain c' a rest where c': "Set_store vk vv c key val = Inr c'" "cache_inv c'"
      "maxSize c' = maxSize c" "evictList c' = a # rest"
      "ekey (elems c' ! a) = key" "evalue (elems c' ! a) = val"
      "esize (elems c' ! a) = calculateEntrySize vk vv key val"
    using Set_store_front [OF inv] by blast
  have "esize (elems c' ! a) \<le>s maxSize c'" using c'(3,7) assms(3) by simp
  then obtain c1 rest' where c1: "evict_loop c' = Some (Inr c1)" "cache_inv c1"
      "evictList c1 = a # rest'" "elems c1 = elems c'"
    using evict_loop_keeps_front [OF c'(2,4)] by blast
  have s: "Set vk vv c key val = Some (Inr c1)" using c'(1) c1(1) by (simp add: Set_def)
  have "store c1 (ekey (elems c1 ! a)) = Some a"
    using cache_inv_elem [OF c1(2), of a] c1(3) by simp
  then have "store c1 key = Some a" using c1(4) c'(5) by simp
  then have "Get c1 key = Inr (c1\<lparr>evictList := MoveToFront a (evictList c1)\<rparr>, Some val)"
    using Get_present [OF c1(2)] c1(4) c'(6) by simp
  then show ?thesis using s by blast
qed

theorem Set_then_Get_witness:
  "New 1 = Inr \<lparr>store = Map.empty, evictList = [], elems = [] :: (string, string) entry list,
                 maxSize = 1048576, currSize = 0\<rparr> \<and>
   run VString VString
     \<lparr>store = Map.empty, evictList = [], elems = [], maxSize = 1048576, currSize = 0\<rparr>
     [OpSet ''a'' ''x''] =
   Some (Inr \<lparr>store = [''a'' \<mapsto> 0], evictList = [0],
               elems = [\<lparr>ekey = ''a'', evalue = ''x'', esize = 34\<rparr>],
               maxSize = 1048576, currSize = 34\<rparr>) \<and>
   calculateEntrySize VString VString ''b'' ''yy'' \<le>s 1048576 \<and>
   Set VString VString
     \<lparr>store = [''a'' \<mapsto> 0], evictList = [0],
      elems = [\<lparr>ekey = ''a'', evalue = ''x'', esize = 34\<rparr>],
      maxSize = 1048576, currSize = 34\<rparr> ''b'' ''yy'' =
   Some (Inr \<lparr>store = [''a'' \<mapsto> 0, ''b'' \<mapsto> Suc 0], evictList = [Suc 0, 0],
               elems = [\<lparr>ekey = ''a'', evalue = ''x'', esize = 34\<rparr>,
                        \<lparr>ekey = ''b'', evalue = ''yy'', esize = 35\<rparr>],
               maxSize = 1048576, currSize = 69\<rparr>) \<and>
   Get \<lparr>store = [''a'' \<mapsto> 0, ''b'' \<mapsto> Suc 0], evictList = [Suc 0, 0],
               elems = [\<lparr>ekey = ''a'', evalue = ''x'', esize = 34\<rparr>,
                        \<lparr>ekey = ''b'', evalue = ''yy'', esize = 35\<rparr>],
               maxSize = 1048576, currSize = 69\<rparr> ''b'' =
   Inr (\<lparr>store = [''a'' \<mapsto> 0, ''b'' \<mapsto> Suc 0], evictList = [Suc 0, 0],
               elems = [\<lparr>ekey = ''a'', evalue = ''x'', esize = 34\<rparr>,
                        \<lparr>ekey = ''b'', evalue = ''yy'', esize = 35\<rparr>],
               maxSize = 1048576, currSize = 69\<rparr>, Some ''yy'')"
proof -
  have n: "New 1 = Inr \<lparr>store = Map.empty, evictList = [],
                 elems = [] :: (string, string) entry list,
                 maxSize = 1048576, currSize = 0\<rparr>"
    by (simp add: eval_defs)
  have r: "run VString VString
     \<lparr>store = Map.empty, evictList = [], elems = [], maxSize = 1048576, currSize = 0\<rparr>
     [OpSet ''a'' ''x''] =
   Some (Inr \<lparr>store = [''a'' \<mapsto> 0], evictList = [0],
               elems = [\<lparr>ekey = ''a'', evalue = ''x'', esize = 34\<rparr>],
               maxSize = 1048576, currSize = 34\<rparr>)"
    by (simp add: eval_defs evict_loop.simps)
  have m: "calculateEntrySize VString VString ''b'' ''yy'' \<le>s
      maxSize \<lparr>store = [''a'' \<mapsto> 0], evictList = [0],
               elems = [\<lparr>ekey = ''a'', evalue = ''x'', esize = 34\<rparr>],
               maxSize = 1048576, currSize = 34\<rparr>"
    by (simp add: eval_defs)
  show ?thesis
    using n r m Set_then_Get [OF n r m]
    by (simp add: eval_defs evict_loop.simps)
qed

theorem Set_then_Get_counterexample:
  "New 1 = Inr \<lparr>store = Map.empty, evictList = [], elems = [] :: (string, string) entry list,
                 maxSize = 1048576, currSize = 0\<rparr> \<and>
   Set VString VString
     \<lparr>store = Map.empty, evictList = [], elems = [], maxSize = 1048576, currSize = 0\<rparr>
     ''a'' (replicate 1048576 CHR ''x'') =
   Some (Inr \<lparr>store = Map.empty, evictList = [],
               elems = [\<lparr>ekey = ''a'', evalue = replicate 1048576 CHR ''x'',
                         esize = 1048609\<rparr>],
               maxSize = 1048576, currSize = 0\<rparr>) \<and>
   Get \<lparr>store = Map.empty, evictList = [],
        elems = [\<lparr>ekey = ''a'', evalue = replicate 1048576 CHR ''x'', esize = 1048609\<rparr>],
        maxSize = 1048576, currSize = 0\<rparr> ''a'' =
   Inr (\<lparr>store = Map.empty, evictList = [],
         elems = [\<lparr>ekey = ''a'', evalue = replicate 1048576 CHR ''x'', esize = 1048609\<rparr>],
         maxSize = 1048576, currSize = 0\<rparr>, None)"
  by (simp add: eval_defs evict_loop.simps)

text \<open>
  C7 (amended). Into an empty cache whose capacity holds exactly three of the entries
  (the running totals after A, after A and B, and after A, B and C do not exceed the
  capacity, the total of all four does, and the total of B, C and D does not), insert
  distinct keys A, B, C in that order: all three are present. Inserting D then evicts
  exactly A, the least recently used: afterwards B, C and D are present and A is absent.
\<close>

theorem LRU_ordering:
  assumes "New maxMB = Inr c0"
    and "distinct [A, B, C, D]"
    and "sA = calculateEntrySize vk vv A vA" and "sB = calculateEntrySize vk vv B vB"
    and "sC = calculateEntrySize vk vv C vC" and "sD = calculateEntrySize vk vv D vD"
    and "sA \<le>s maxSize c0" and "sA + sB \<le>s maxSize c0" and "sA + sB + sC \<le>s maxSize c0"
    and "maxSize c0 <s sA + sB + sC + sD"
    and "sB + sC + sD \<le>s maxSize c0"
  shows "\<exists>c3 c4.
           run vk vv c0 [OpSet A vA, OpSet B vB, OpSet C vC] = Some (Inr c3) \<and>
           entries c3 = [\<lparr>ekey = C, evalue = vC, esize = sC\<rparr>,
                         \<lparr>ekey = B, evalue = vB, esize = sB\<rparr>,
                         \<lparr>ekey = A, evalue = vA, esize = sA\<rparr>] \<and>
           run vk vv c0 [OpSet A vA, OpSet B vB, OpSet C vC, OpSet D vD] = Some (Inr c4) \<and>
           entries c4 = [\<lparr>ekey = D, evalue = vD, esize = sD\<rparr>,
                         \<lparr>ekey = C, evalue = vC, esize = sC\<rparr>,
                         \<lparr>ekey = B, evalue = vB, esize = sB\<rparr>] \<and>
           store c4 A = None \<and> store c4 B \<noteq> None \<and> store c4 C \<noteq> None \<and> store c4 D \<noteq> None"
proof -
  let ?m = "maxSize c0"
  let ?eA = "\<lparr>ekey = A, evalue = vA, esize = sA\<rparr>"
  let ?eB = "\<lparr>ekey = B, evalue = vB, esize = sB\<rparr>"
  let ?eC = "\<lparr>ekey = C, evalue = vC, esize = sC\<rparr>"
  let ?eD = "\<lparr>ekey = D, evalue = vD, esize = sD\<rparr>"
  let ?c3 = "\<lparr>store = [A \<mapsto> 0, B \<mapsto> 1, C \<mapsto> 2], evictList = [2, 1, 0],
       elems = [?eA, ?eB, ?eC], maxSize = ?m, currSize = sA + sB + sC\<rparr>"
  let ?c4 = "\<lparr>store = [A \<mapsto> 0, B \<mapsto> 1, C \<mapsto> 2, D \<mapsto> 3](A := None), evictList = [3, 2, 1],
       elems = [?eA, ?eB, ?eC, ?eD], maxSize = ?m, currSize = sB + sC + sD\<rparr>"
  have c0: "c0 = \<lparr>store = Map.empty, evictList = [], elems = [], maxSize = ?m, currSize = 0\<rparr>"
    using assms(1) by (rule New_Inr)
  have d3: "distinct [A, B, C]" and dD: "D \<noteq> A" "D \<noteq> B" "D \<noteq> C"
    using assms(2) by auto
  have r3: "run vk vv c0 [OpSet A vA, OpSet B vB, OpSet C vC] = Some (Inr ?c3)"
    by (subst c0, rule three_inserts [OF d3 assms(7,8,9) assms(3,4,5)])
  have sub: "sA + sB + sC + sD - sA = sB + sC + sD" by simp
  have s4: "Set vk vv ?c3 D vD = Some (Inr ?c4)"
  proof (rule Set_absent_evict_one)
    show "store ?c3 D = None" using dD by simp
    show "maxSize ?c3 <s currSize ?c3 + calculateEntrySize vk vv D vD"
      using assms(10) by (simp add: assms(6))
    show "evict (?c3\<lparr>elems := elems ?c3 @ [\<lparr>ekey = D, evalue = vD,
                                        esize = calculateEntrySize vk vv D vD\<rparr>],
                  evictList := PushFront (length (elems ?c3)) (evictList ?c3),
                  store := (store ?c3)(D \<mapsto> length (elems ?c3)),
                  currSize := currSize ?c3 + calculateEntrySize vk vv D vD\<rparr>) = Inr ?c4"
      by (simp add: evict_def Back_def elemValue_def Remove_def PushFront_def
          assms(6) [symmetric] sub numeral_3_eq_3)
    show "\<not> maxSize ?c4 <s currSize ?c4"
      using not_sless [OF assms(11)] by simp
  qed
  have r4: "run vk vv c0 [OpSet A vA, OpSet B vB, OpSet C vC, OpSet D vD] = Some (Inr ?c4)"
    using run_append [OF r3, of "[OpSet D vD]"] s4 by simp
  have e3: "entries ?c3 = [?eC, ?eB, ?eA]"
    by (simp add: entries_simps List.map_filter_simps)
  have e4: "entries ?c4 = [?eD, ?eC, ?eB]"
    by (simp add: entries_simps List.map_filter_simps)
  have st: "store ?c4 A = None \<and> store ?c4 B \<noteq> None \<and> store ?c4 C \<noteq> None \<and> store ?c4 D \<noteq> None"
    using assms(2) by auto
  show ?thesis
    using r3 e3 r4 e4 st by blast
qed

theorem LRU_ordering_witness:
  "New 1 = Inr \<lparr>store = Map.empty, evictList = [], elems = [] :: (string, string) entry list,
                 maxSize = 1048576, currSize = 0\<rparr> \<and>
   distinct [''A'', ''B'', ''C'', ''D''] \<and>
   calculateEntrySize VString VString ''A'' (replicate 300000 CHR ''v'') = 300033 \<and>
   calculateEntrySize VString VString ''B'' (replicate 300000 CHR ''v'') = 300033 \<and>
   calculateEntrySize VString VString ''C'' (replicate 300000 CHR ''v'') = 300033 \<and>
   calculateEntrySize VString VString ''D'' (replicate 300000 CHR ''v'') = 300033 \<and>
   (300033 :: int64) \<le>s 1048576 \<and>
   (300033 + 300033 :: int64) \<le>s 1048576 \<and>
   (300033 + 300033 + 300033 :: int64) \<le>s 1048576 \<and>
   (1048576 :: int64) <s 300033 + 300033 + 300033 + 300033 \<and>
   (\<exists>c4. run VString VString
      \<lparr>store = Map.empty, evictList = [], elems = [], maxSize = 1048576, currSize = 0\<rparr>
      [OpSet ''A'' (replicate 300000 CHR ''v''), OpSet ''B'' (replicate 300000 CHR ''v''),
       OpSet ''C'' (replicate 300000 CHR ''v''), OpSet ''D'' (replicate 300000 CHR ''v'')] =
      Some (Inr c4) \<and>
      store c4 ''A'' = None \<and> store c4 ''B'' \<noteq> None \<and> store c4 ''C'' \<noteq> None \<and>
      store c4 ''D'' \<noteq> None)"
proof -
  let ?v = "replicate 300000 CHR ''v''"
  let ?c0 = "\<lparr>store = Map.empty, evictList = [], elems = [] :: (string, string) entry list,
                 maxSize = 1048576, currSize = 0\<rparr>"
  have n: "New 1 = Inr ?c0" by (simp add: eval_defs)
  have d: "distinct [''A'', ''B'', ''C'', ''D'']" by simp
  have sA: "(300033 :: int64) = calculateEntrySize VString VString ''A'' ?v"
    and sB: "(300033 :: int64) = calculateEntrySize VString VString ''B'' ?v"
    and sC: "(300033 :: int64) = calculateEntrySize VString VString ''C'' ?v"
    and sD: "(300033 :: int64) = calculateEntrySize VString VString ''D'' ?v"
    by (simp_all add: calculateEntrySize_def sizeof_string_def)
  have f1: "(300033 :: int64) \<le>s maxSize ?c0"
    and f2: "(300033 + 300033 :: int64) \<le>s maxSize ?c0"
    and f3: "(300033 + 300033 + 300033 :: int64) \<le>s maxSize ?c0"
    and ov: "maxSize ?c0 <s (300033 + 300033 + 300033 + 300033 :: int64)"
    by (simp_all add: word_sle_eq word_sless_alt)
  from LRU_ordering [OF n d sA sB sC sD f1 f2 f3 ov f3]
  have "\<exists>c4. run VString VString ?c0
      [OpSet ''A'' ?v, OpSet ''B'' ?v, OpSet ''C'' ?v, OpSet ''D'' ?v] = Some (Inr c4) \<and>
      store c4 ''A'' = None \<and> store c4 ''B'' \<noteq> None \<and> store c4 ''C'' \<noteq> None \<and>
      store c4 ''D'' \<noteq> None"
    by blast
  then show ?thesis
    using n d sA sB sC sD f1 f2 f3 ov by simp
qed

theorem LRU_ordering_counterexample:
  "New 1 = Inr \<lparr>store = Map.empty, evictList = [], elems = [] :: (string, string) entry list,
                 maxSize = 1048576, currSize = 0\<rparr> \<and>
   calculateEntrySize VString VString ''A'' (replicate 500000 CHR ''v'') = 500033 \<and>
   (500033 + 500033 :: int64) \<le>s 1048576 \<and>
   (1048576 :: int64) <s 500033 + 500033 + 500033 \<and>
   run VString VString
     \<lparr>store = Map.empty, evictList = [], elems = [], maxSize = 1048576, currSize = 0\<rparr>
     [OpSet ''A'' (replicate 500000 CHR ''v''), OpSet ''B'' (replicate 500000 CHR ''v''),
      OpSet ''C'' (replicate 500000 CHR ''v'')] =
   Some (Inr \<lparr>store = [''B'' \<mapsto> 1, ''C'' \<mapsto> 2], evictList = [2, 1],
               elems = [\<lparr>ekey = ''A'', evalue = replicate 500000 CHR ''v'', esize = 500033\<rparr>,
                        \<lparr>ekey = ''B'', evalue = replicate 500000 CHR ''v'', esize = 500033\<rparr>,
                        \<lparr>ekey = ''C'', evalue = replicate 500000 CHR ''v'', esize = 500033\<rparr>],
               maxSize = 1048576, currSize = 1000066\<rparr>) \<and>
   run VString VString
     \<lparr>store = Map.empty, evictList = [], elems = [], maxSize = 1048576, currSize = 0\<rparr>
     [OpSet ''A'' (replicate 500000 CHR ''v''), OpSet ''B'' (replicate 500000 CHR ''v''),
      OpSet ''C'' (replicate 500000 CHR ''v''), OpSet ''D'' (replicate 500000 CHR ''v'')] =
   Some (Inr \<lparr>store = [''C'' \<mapsto> 2, ''D'' \<mapsto> 3], evictList = [3, 2],
               elems = [\<lparr>ekey = ''A'', evalue = replicate 500000 CHR ''v'', esize = 500033\<rparr>,
                        \<lparr>ekey = ''B'', evalue = replicate 500000 CHR ''v'', esize = 500033\<rparr>,
                        \<lparr>ekey = ''C'', evalue = replicate 500000 CHR ''v'', esize = 500033\<rparr>,
                        \<lparr>ekey = ''D'', evalue = replicate 500000 CHR ''v'', esize = 500033\<rparr>],
               maxSize = 1048576, currSize = 1000066\<rparr>) \<and>
   [''C'' \<mapsto> 2, ''D'' \<mapsto> 3 :: nat] ''B'' = None"
  by (simp add: eval_defs evict_loop.simps numeral_2_eq_2 numeral_3_eq_3)

text \<open>
  C8 (amended). Into an empty cache whose capacity holds exactly three of the entries
  (the running totals after A, after A and B, and after A, B and C do not exceed the
  capacity, the total of all four does, and the total of A, C and D does not), insert
  distinct keys A, B, C in that order. \<^verbatim>\<open>Get(A)\<close> then finds A and moves it to the front
  of the recency list, so that inserting D evicts B and not A: afterwards A, C and D are
  present and B is absent.
\<close>

theorem recency_refresh:
  assumes "New maxMB = Inr c0"
    and "distinct [A, B, C, D]"
    and "sA = calculateEntrySize vk vv A vA" and "sB = calculateEntrySize vk vv B vB"
    and "sC = calculateEntrySize vk vv C vC" and "sD = calculateEntrySize vk vv D vD"
    and "sA \<le>s maxSize c0" and "sA + sB \<le>s maxSize c0" and "sA + sB + sC \<le>s maxSize c0"
    and "maxSize c0 <s sA + sB + sC + sD"
    and "sA + sC + sD \<le>s maxSize c0"
  shows "\<exists>c3 c3' c4.
           run vk vv c0 [OpSet A vA, OpSet B vB, OpSet C vC] = Some (Inr c3) \<and>
           Get c3 A = Inr (c3', Some vA) \<and>
           entries c3' = [\<lparr>ekey = A, evalue = vA, esize = sA\<rparr>,
                          \<lparr>ekey = C, evalue = vC, esize = sC\<rparr>,
                          \<lparr>ekey = B, evalue = vB, esize = sB\<rparr>] \<and>
           Set vk vv c3' D vD = Some (Inr c4) \<and>
           run vk vv c0 [OpSet A vA, OpSet B vB, OpSet C vC, OpGet A, OpSet D vD] =
             Some (Inr c4) \<and>
           entries c4 = [\<lparr>ekey = D, evalue = vD, esize = sD\<rparr>,
                         \<lparr>ekey = A, evalue = vA, esize = sA\<rparr>,
                         \<lparr>ekey = C, evalue = vC, esize = sC\<rparr>] \<and>
           store c4 B = None \<and> store c4 A \<noteq> None \<and> store c4 C \<noteq> None \<and> store c4 D \<noteq> None"
proof -
  let ?m = "maxSize c0"
  let ?eA = "\<lparr>ekey = A, evalue = vA, esize = sA\<rparr>"
  let ?eB = "\<lparr>ekey = B, evalue = vB, esize = sB\<rparr>"
  let ?eC = "\<lparr>ekey = C, evalue = vC, esize = sC\<rparr>"
  let ?eD = "\<lparr>ekey = D, evalue = vD, esize = sD\<rparr>"
  let ?c3 = "\<lparr>store = [A \<mapsto> 0, B \<mapsto> 1, C \<mapsto> 2], evictList = [2, 1, 0],
       elems = [?eA, ?eB, ?eC], maxSize = ?m, currSize = sA + sB + sC\<rparr>"
  let ?c3' = "\<lparr>store = [A \<mapsto> 0, B \<mapsto> 1, C \<mapsto> 2], evictList = [0, 2, 1],
       elems = [?eA, ?eB, ?eC], maxSize = ?m, currSize = sA + sB + sC\<rparr>"
  let ?c4 = "\<lparr>store = [A \<mapsto> 0, B \<mapsto> 1, C \<mapsto> 2, D \<mapsto> 3](B := None), evictList = [3, 0, 2],
       elems = [?eA, ?eB, ?eC, ?eD], maxSize = ?m, currSize = sA + sC + sD\<rparr>"
  have c0: "c0 = \<lparr>store = Map.empty, evictList = [], elems = [], maxSize = ?m, currSize = 0\<rparr>"
    using assms(1) by (rule New_Inr)
  have d3: "distinct [A, B, C]" and dD: "D \<noteq> A" "D \<noteq> B" "D \<noteq> C"
    using assms(2) by auto
  have r3: "run vk vv c0 [OpSet A vA, OpSet B vB, OpSet C vC] = Some (Inr ?c3)"
    by (subst c0, rule three_inserts [OF d3 assms(7,8,9) assms(3,4,5)])
  have g: "Get ?c3 A = Inr (?c3', Some vA)"
    using d3 by (simp add: Get_def elemValue_def MoveToFront_def)
  have sub: "sA + sB + sC + sD - sB = sA + sC + sD" by simp
  have s4: "Set vk vv ?c3' D vD = Some (Inr ?c4)"
  proof (rule Set_absent_evict_one)
    show "store ?c3' D = None" using dD by simp
    show "maxSize ?c3' <s currSize ?c3' + calculateEntrySize vk vv D vD"
      using assms(10) by (simp add: assms(6))
    show "evict (?c3'\<lparr>elems := elems ?c3' @ [\<lparr>ekey = D, evalue = vD,
                                        esize = calculateEntrySize vk vv D vD\<rparr>],
                  evictList := PushFront (length (elems ?c3')) (evictList ?c3'),
                  store := (store ?c3')(D \<mapsto> length (elems ?c3')),
                  currSize := currSize ?c3' + calculateEntrySize vk vv D vD\<rparr>) = Inr ?c4"
      by (simp add: evict_def Back_def elemValue_def Remove_def PushFront_def
          assms(6) [symmetric] sub numeral_3_eq_3)
    show "\<not> maxSize ?c4 <s currSize ?c4"
      using not_sless [OF assms(11)] by simp
  qed
  have r5: "run vk vv c0 [OpSet A vA, OpSet B vB, OpSet C vC, OpGet A, OpSet D vD] =
      Some (Inr ?c4)"
    using run_append [OF r3, of "[OpGet A, OpSet D vD]"] g s4 by simp
  have e3: "entries ?c3' = [?eA, ?eC, ?eB]"
    by (simp add: entries_simps List.map_filter_simps)
  have e4: "entries ?c4 = [?eD, ?eA, ?eC]"
    by (simp add: entries_simps List.map_filter_simps)
  have st: "store ?c4 B = None \<and> store ?c4 A \<noteq> None \<and> store ?c4 C \<noteq> None \<and> store ?c4 D \<noteq> None"
    using assms(2) by auto
  show ?thesis
    using r3 g e3 s4 r5 e4 st by blast
qed

theorem recency_refresh_witness:
  "New 1 = Inr \<lparr>store = Map.empty, evictList = [], elems = [] :: (string, string) entry list,
                 maxSize = 1048576, currSize = 0\<rparr> \<and>
   distinct [''A'', ''B'', ''C'', ''D''] \<and>
   calculateEntrySize VString VString ''A'' (replicate 300000 CHR ''v'') = 300033 \<and>
   calculateEntrySize VString VString ''B'' (replicate 300000 CHR ''v'') = 300033 \<and>
   calculateEntrySize VString VString ''C'' (replicate 300000 CHR ''v'') = 300033 \<and>
   calculateEntrySize VString VString ''D'' (replicate 300000 CHR ''v'') = 300033 \<and>
   (300033 :: int64) \<le>s 1048576 \<and>
   (300033 + 300033 :: int64) \<le>s 1048576 \<and>
   (300033 + 300033 + 300033 :: int64) \<le>s 1048576 \<and>
   (1048576 :: int64) <s 300033 + 300033 + 300033 + 300033 \<and>
   (\<exists>c4. run VString VString
      \<lparr>store = Map.empty, evictList = [], elems = [], maxSize = 1048576, currSize = 0\<rparr>
      [OpSet ''A'' (replicate 300000 CHR ''v''), OpSet ''B'' (replicate 300000 CHR ''v''),
       OpSet ''C'' (replicate 300000 CHR ''v''), OpGet ''A'',
       OpSet ''D'' (replicate 300000 CHR ''v'')] =
      Some (Inr c4) \<and>
      store c4 ''B'' = None \<and> store c4 ''A'' \<noteq> None \<and> store c4 ''C'' \<noteq> None \<and>
      store c4 ''D'' \<noteq> None)"
proof -
  let ?v = "replicate 300000 CHR ''v''"
  let ?c0 = "\<lparr>store = Map.empty, evictList = [], elems = [] :: (string, string) entry list,
                 maxSize = 1048576, currSize = 0\<rparr>"
  have n: "New 1 = Inr ?c0" by (simp add: eval_defs)
  have d: "distinct [''A'', ''B'', ''C'', ''D'']" by simp
  have sA: "(300033 :: int64) = calculateEntrySize VString VString ''A'' ?v"
    and sB: "(300033 :: int64) = calculateEntrySize VString VString ''B'' ?v"
    and sC: "(300033 :: int64) = calculateEntrySize VString VString ''C'' ?v"
    and sD: "(300033 :: int64) = calculateEntrySize VString VString ''D'' ?v"
    by (simp_all add: calculateEntrySize_def sizeof_string_def)
  have f1: "(300033 :: int64) \<le>s maxSize ?c0"
    and f2: "(300033 + 300033 :: int64) \<le>s maxSize ?c0"
    and f3: "(300033 + 300033 + 300033 :: int64) \<le>s maxSize ?c0"
    and ov: "maxSize ?c0 <s (300033 + 300033 + 300033 + 300033 :: int64)"
    by (simp_all add: word_sle_eq word_sless_alt)
  from recency_refresh [OF n d sA sB sC sD f1 f2 f3 ov f3]
  have "\<exists>c4. run VString VString ?c0
      [OpSet ''A'' ?v, OpSet ''B'' ?v, OpSet ''C'' ?v, OpGet ''A'', OpSet ''D'' ?v] =
        Some (Inr c4) \<and>
      store c4 ''B'' = None \<and> store c4 ''A'' \<noteq> None \<and> store c4 ''C'' \<noteq> None \<and>
      store c4 ''D'' \<noteq> None"
    by blast
  then show ?thesis
    using n d sA sB sC sD f1 f2 f3 ov by simp
qed

theorem recency_refresh_counterexample:
  "New 1 = Inr \<lparr>store = Map.empty, evictList = [], elems = [] :: (string, string) entry list,
                 maxSize = 1048576, currSize = 0\<rparr> \<and>
   calculateEntrySize VString VString ''A'' (replicate 500000 CHR ''v'') = 500033 \<and>
   (500033 + 500033 :: int64) \<le>s 1048576 \<and>
   (1048576 :: int64) <s 500033 + 500033 + 500033 \<and>
   run VString VString
     \<lparr>store = Map.empty, evictList = [], elems = [], maxSize = 1048576, currSize = 0\<rparr>
     [OpSet ''A'' (replicate 500000 CHR ''v''), OpSet ''B'' (replicate 500000 CHR ''v''),
      OpSet ''C'' (replicate 500000 CHR ''v'')] =
   Some (Inr \<lparr>store = [''B'' \<mapsto> 1, ''C'' \<mapsto> 2], evictList = [2, 1],
               elems = [\<lparr>ekey = ''A'', evalue = replicate 500000 CHR ''v'', esize = 500033\<rparr>,
                        \<lparr>ekey = ''B'', evalue = replicate 500000 CHR ''v'', esize = 500033\<rparr>,
                        \<lparr>ekey = ''C'', evalue = replicate 500000 CHR ''v'', esize = 500033\<rparr>],
               maxSize = 1048576, currSize = 1000066\<rparr>) \<and>
   Get \<lparr>store = [''B'' \<mapsto> 1, ''C'' \<mapsto> 2], evictList = [2, 1],
        elems = [\<lparr>ekey = ''A'', evalue = replicate 500000 CHR ''v'', esize = 500033\<rparr>,
                 \<lparr>ekey = ''B'', evalue = replicate 500000 CHR ''v'', esize = 500033\<rparr>,
                 \<lparr>ekey = ''C'', evalue = replicate 500000 CHR ''v'', esize = 500033\<rparr>],
        maxSize = 1048576, currSize = 1000066\<rparr> ''A'' =
   Inr (\<lparr>store = [''B'' \<mapsto> 1, ''C'' \<mapsto> 2], evictList = [2, 1],
         elems = [\<lparr>ekey = ''A'', evalue = replicate 500000 CHR ''v'', esize = 500033\<rparr>,
                  \<lparr>ekey = ''B'', evalue = replicate 500000 CHR ''v'', esize = 500033\<rparr>,
                  \<lparr>ekey = ''C'', evalue = replicate 500000 CHR ''v'', esize = 500033\<rparr>],
         maxSize = 1048576, currSize = 1000066\<rparr>, None) \<and>
   run VString VString
     \<lparr>store = Map.empty, evictList = [], elems = [], maxSize = 1048576, currSize = 0\<rparr>
     [OpSet ''A'' (replicate 500000 CHR ''v''), OpSet ''B'' (replicate 500000 CHR ''v''),
      OpSet ''C'' (replicate 500000 CHR ''v''), OpGet ''A'',
      OpSet ''D'' (replicate 500000 CHR ''v'')] =
   Some (Inr \<lparr>store = [''C'' \<mapsto> 2, ''D'' \<mapsto> 3], evictList = [3, 2],
               elems = [\<lparr>ekey = ''A'', evalue = replicate 500000 CHR ''v'', esize = 500033\<rparr>,
                        \<lparr>ekey = ''B'', evalue = replicate 500000 CHR ''v'', esize = 500033\<rparr>,
                        \<lparr>ekey = ''C'', evalue = replicate 500000 CHR ''v'', esize = 500033\<rparr>,
                        \<lparr>ekey = ''D'', evalue = replicate 500000 CHR ''v'', esize = 500033\<rparr>],
               maxSize = 1048576, currSize = 1000066\<rparr>) \<and>
   [''C'' \<mapsto> 2, ''D'' \<mapsto> 3 :: nat] ''A'' = None"
  by (simp add: eval_defs evict_loop.simps numeral_2_eq_2 numeral_3_eq_3)

text \<open>
  C9 (amended). For every string, \<^verbatim>\<open>calculateSize\<close> of \<^verbatim>\<open>govault.go\<close> returns the size of
  the string header plus the number of bytes of the string, so the estimate that its
  \<^verbatim>\<open>Set\<close> records grows strictly with the length (for lengths below \<open>2 ^ 63 - 16\<close>, where
  the sum fits). The estimator of \<^verbatim>\<open>govault/cache.go\<close> returns the sizes of the key type
  and of the value type, whatever the string.
\<close>

theorem calculateSize_string:
  "calculateSize (VString s) = sizeof_string + of_nat (length s) \<and>
   calculateEntrySize vk VString key s =
     calculateSize (vk key) + (sizeof_string + of_nat (length s)) \<and>
   (length s < length t \<and> length t < 2 ^ 63 - 16 \<longrightarrow>
      calculateSize (VString s) <s calculateSize (VString t)) \<and>
   cache_go_calculateEntrySize sizeofKey sizeofValue key s = sizeofKey + sizeofValue"
proof (intro conjI impI)
  assume a: "length s < length t \<and> length t < 2 ^ 63 - 16"
  then have "sint (16 + of_nat (length s) :: int64) = 16 + int (length s)"
    and "sint (16 + of_nat (length t) :: int64) = 16 + int (length t)"
    by (simp_all add: sint_add_len)
  then show "calculateSize (VString s) <s calculateSize (VString t)"
    using a by (simp add: word_sless_alt sizeof_string_def)
qed (simp_all add: calculateEntrySize_def cache_go_calculateEntrySize_def)

theorem calculateSize_string_witness:
  "length ''ab'' < length ''abc'' \<and> length ''abc'' < 2 ^ 63 - 16 \<and>
   calculateSize (VString ''ab'') <s calculateSize (VString ''abc'') \<and>
   calculateSize (VString ''abc'') = 19"
  using calculateSize_string [of "''ab''" VString "''k''" "''abc''" 16 16]
  by (simp add: sizeof_string_def)

theorem calculateSize_string_counterexample:
  "cache_go_calculateEntrySize sizeof_string sizeof_string ''k'' ''x'' = 32 \<and>
   cache_go_calculateEntrySize sizeof_string sizeof_string ''k'' ''xxxx'' = 32 \<and>
   \<not> (cache_go_calculateEntrySize sizeof_string sizeof_string ''k'' ''x'' <s
      cache_go_calculateEntrySize sizeof_string sizeof_string ''k'' ''xxxx'')"
  by (simp add: cache_go_calculateEntrySize_def sizeof_string_def)

text \<open>
  C10 (amended). \<^verbatim>\<open>New\<close> accepts every \<open>maxMB > 0\<close> and stores the 64-bit product
  \<open>maxMB * 1024 * 1024\<close> unchecked. Whenever the stored capacity is negative, which is so
  for every \<open>2 ^ 43 \<le> maxMB < 2 ^ 44\<close>, a \<^verbatim>\<open>Set\<close> on the new cache of any entry whose
  estimated size exceeds that capacity (every entry of non-negative size does) never
  returns: the entry is evicted, and then \<open>0 > maxSize\<close> holds for the empty cache.
\<close>

theorem New_overflow_Set_diverges:
  assumes "0 <s maxMB"
  shows "\<exists>c0. (New maxMB :: panic + ('k, 'v) cache) = Inr c0 \<and>
           maxSize c0 = maxMB * 1024 * 1024 \<and>
           (2 ^ 43 \<le> sint maxMB \<and> sint maxMB < 2 ^ 44 \<longrightarrow> maxSize c0 <s 0) \<and>
           (maxSize c0 <s 0 \<longrightarrow>
              (\<forall>vk vv key val. maxSize c0 <s calculateEntrySize vk vv key val \<longrightarrow>
                 Set vk vv c0 key val = None) \<and>
              (\<forall>vk vv key val. 0 \<le>s calculateEntrySize vk vv key val \<longrightarrow>
                 Set vk vv c0 key val = None))"
proof -
  let ?c0 = "\<lparr>store = Map.empty, evictList = [], elems = [] :: ('k, 'v) entry list,
               maxSize = maxMB * 1024 * 1024, currSize = 0\<rparr>"
  have n: "New maxMB = Inr ?c0" using assms by (rule New_positive)
  have neg: "2 ^ 43 \<le> sint maxMB \<and> sint maxMB < 2 ^ 44 \<longrightarrow> maxSize ?c0 <s 0"
  proof
    assume "2 ^ 43 \<le> sint maxMB \<and> sint maxMB < 2 ^ 44"
    then have "maxMB * 1024 * 1024 <s 0" by (intro sint_mul_MB_neg) blast+
    then show "maxSize ?c0 <s 0" by simp
  qed
  have d1: "Set vk vv ?c0 key val = None"
    if "maxSize ?c0 <s 0" "maxSize ?c0 <s calculateEntrySize vk vv key val"
    for vk vv key val
    using that by (simp add: Set_fresh [OF refl])
  have d2: "Set vk vv ?c0 key val = None"
    if "maxSize ?c0 <s 0" "0 \<le>s calculateEntrySize vk vv key val"
    for vk vv key val
  proof -
    have "maxSize ?c0 <s calculateEntrySize vk vv key val"
      using that by (simp add: word_sless_alt word_sle_eq)
    then show ?thesis using that(1) by (rule d1 [rotated])
  qed
  show ?thesis
    using n neg d1 d2 by (intro exI [of _ ?c0]) simp
qed

theorem New_overflow_Set_diverges_witness:
  "0 <s (2 ^ 43 :: int64) \<and>
   (2 :: int) ^ 43 \<le> sint (2 ^ 43 :: int64) \<and> sint (2 ^ 43 :: int64) < 2 ^ 44 \<and>
   (New (2 ^ 43) :: panic + (string, string) cache) =
     Inr \<lparr>store = Map.empty, evictList = [], elems = [],
          maxSize = - 9223372036854775808, currSize = 0\<rparr> \<and>
   (- 9223372036854775808 :: int64) <s 0 \<and>
   (0 :: int64) \<le>s calculateEntrySize VString VString ''a'' ''x'' \<and>
   Set VString VString
     \<lparr>store = Map.empty, evictList = [], elems = [],
      maxSize = - 9223372036854775808, currSize = 0\<rparr> ''a'' ''x'' = None"
proof -
  have p: "0 <s (2 ^ 43 :: int64)" by (simp add: word_sless_alt)
  have n: "(New (2 ^ 43) :: panic + (string, string) cache) =
     Inr \<lparr>store = Map.empty, evictList = [], elems = [],
          maxSize = - 9223372036854775808, currSize = 0\<rparr>"
    by (simp add: New_def word_sle_eq)
  have e: "(0 :: int64) \<le>s calculateEntrySize VString VString ''a'' ''x''"
    by (simp add: eval_defs)
  from New_overflow_Set_diverges [OF p, where ?'k = string and ?'v = string]
  have "Set VString VString
     \<lparr>store = Map.empty, evictList = [], elems = [],
      maxSize = - 9223372036854775808, currSize = 0\<rparr> ''a'' ''x'' = None"
    using e unfolding n by (auto simp: word_sless_alt)
  then show ?thesis using p n e by (simp add: word_sless_alt)
qed

theorem New_overflow_counterexample:
  "(2 :: int) ^ 63 \<le> sint (2 ^ 44 + 1 :: int64) * 1024 * 1024 \<and>
   (New (2 ^ 44 + 1) :: panic + (string, string) cache) =
     Inr \<lparr>store = Map.empty, evictList = [], elems = [], maxSize = 1048576, currSize = 0\<rparr> \<and>
   (0 :: int64) <s 1048576 \<and>
   Set VString VString
     \<lparr>store = Map.empty, evictList = [], elems = [], maxSize = 1048576, currSize = 0\<rparr>
     ''a'' ''x'' =
   Some (Inr \<lparr>store = [''a'' \<mapsto> 0], evictList = [0],
               elems = [\<lparr>ekey = ''a'', evalue = ''x'', esize = 34\<rparr>],
               maxSize = 1048576, currSize = 34\<rparr>) \<and>
   (2 :: int) ^ 63 \<le> sint (2 ^ 44 :: int64) * 1024 * 1024 \<and>
   (New (2 ^ 44) :: panic + (string, string) cache) =
     Inr \<lparr>store = Map.empty, evictList = [], elems = [], maxSize = 0, currSize = 0\<rparr> \<and>
   Set VString VString
     \<lparr>store = Map.empty, evictList = [], elems = [], maxSize = 0, currSize = 0\<rparr>
     ''a'' ''x'' =
   Some (Inr \<lparr>store = Map.empty, evictList = [],
               elems = [\<lparr>ekey = ''a'', evalue = ''x'', esize = 34\<rparr>],
               maxSize = 0, currSize = 0\<rparr>)"
  by (simp add: eval_defs evict_loop.simps)

end
